theory Spec2Isabelle
  imports Main "HOL-Library.AList"
begin

section \<open>Schema model (types.go)\<close>

text \<open>
  \<^verbatim>\<open>type TypeKind int\<close> with the nine constants numbered by \<^verbatim>\<open>iota\<close>.
  The Go type is an integer type, so a value outside the nine constants is a
  well-formed \<^verbatim>\<open>TypeKind\<close>; the model keeps it an integer for that reason.
\<close>

type_synonym TypeKind = int

definition NULL :: TypeKind where "NULL = 0"
definition NON_NULL :: TypeKind where "NON_NULL = 1"
definition SCALAR :: TypeKind where "SCALAR = 2"
definition OBJECT :: TypeKind where "OBJECT = 3"
definition INTERFACE :: TypeKind where "INTERFACE = 4"
definition UNION :: TypeKind where "UNION = 5"
definition ENUM :: TypeKind where "ENUM = 6"
definition INPUT_OBJECT :: TypeKind where "INPUT_OBJECT = 7"
definition LIST :: TypeKind where "LIST = 8"

text \<open>
  Run-time failures of the Go code are values of the model: a nil pointer
  dereference, a slice expression out of range, the explicit \<^verbatim>\<open>panic\<close> of the
  emitter (carrying the offending kind) and the error returned by the decoder
  (carrying its message).
\<close>

datatype error =
    NilDereference
  | SliceOutOfRange
  | UnsupportedType TypeKind
  | DecodeError string

text \<open>
  \<^verbatim>\<open>type TypeRef struct { Kind TypeKind; Name string; OfType *TypeRef }\<close>:
  the pointer is an optional wrapped reference.
\<close>

datatype TypeRef =
  TypeRef (TypeRef_Kind: TypeKind) (TypeRef_Name: string) (TypeRef_OfType: "TypeRef option")

text \<open>
  \<^verbatim>\<open>TypeKind.UnmarshalJSON\<close>. \<^verbatim>\<open>strconv.Unquote\<close> belongs to the Go standard
  library and is a parameter: \<open>unquote\<close> maps the raw bytes to the unquoted
  string, or to \<open>None\<close> where the library reports an error. The Go code discards
  that error and switches on the returned string, which is empty in that case.
\<close>

definition UnmarshalJSON :: "(string \<Rightarrow> string option) \<Rightarrow> string \<Rightarrow> error + TypeKind" where
  "UnmarshalJSON unquote kind =
     (let kindStr = (case unquote kind of Some s \<Rightarrow> s | None \<Rightarrow> [])
      in if kindStr = ''NULL'' then Inr NULL
         else if kindStr = ''NON_NULL'' then Inr NON_NULL
         else if kindStr = ''SCALAR'' then Inr SCALAR
         else if kindStr = ''OBJECT'' then Inr OBJECT
         else if kindStr = ''INTERFACE'' then Inr INTERFACE
         else if kindStr = ''UNION'' then Inr UNION
         else if kindStr = ''ENUM'' then Inr ENUM
         else if kindStr = ''INPUT_OBJECT'' then Inr INPUT_OBJECT
         else if kindStr = ''LIST'' then Inr LIST
         else Inl (DecodeError (''unknown type kind: '' @ kind)))"

section \<open>Type mapper (util.go)\<close>

text \<open>
  \<^verbatim>\<open>gqlTypeToGoType\<close>. The \<^verbatim>\<open>NULL\<close> case dereferences \<^verbatim>\<open>ref.OfType\<close> without
  the nil test that the \<^verbatim>\<open>NON_NULL\<close> and \<^verbatim>\<open>LIST\<close> cases make, so a nil pointer
  there is a run-time panic.
\<close>

fun gqlTypeToGoType :: "TypeRef \<Rightarrow> error + string" where
  "gqlTypeToGoType (TypeRef kind name ofType) =
     (if kind = SCALAR then
        (if name = ''Int'' then Inr ''int''
         else if name = ''Float'' \<or> name = ''Decimal'' then Inr ''float64''
         else if name = ''String'' then Inr ''string''
         else if name = ''Boolean'' then Inr ''bool''
         else if name = ''ID'' then Inr ''string''
         else Inr ''string'')
      else if kind = OBJECT then Inr name
      else if kind = NON_NULL then
        (case ofType of
           Some t \<Rightarrow> gqlTypeToGoType t
         | None \<Rightarrow> Inr name)
      else if kind = NULL then
        (case ofType of
           None \<Rightarrow> Inl NilDereference
         | Some t \<Rightarrow> gqlTypeToGoType t)
      else if kind = LIST then
        (case ofType of
           Some t \<Rightarrow>
             (if TypeRef_Name t \<noteq> [] then
                (case gqlTypeToGoType t of
                   Inl e \<Rightarrow> Inl e
                 | Inr s \<Rightarrow> Inr (''[]'' @ s))
              else Inr ''[]any'')
         | None \<Rightarrow> Inr ''[]any'')
      else if kind = ENUM then Inr name
      else if kind = INPUT_OBJECT then Inr name
      else if kind = INTERFACE then Inr name
      else if kind = UNION then Inr ''any''
      else Inr ''any'')"

section \<open>Node model (node.go)\<close>

text \<open>
  The declaration structs of the schema. Only the members that the node
  builder reads are kept: descriptions, arguments, deprecation data, interfaces
  and possible types are never read by the code modelled here.
\<close>

record Field =
  Field_Name :: string
  Field_Type :: TypeRef

record InputField =
  InputField_Name :: string
  InputField_Type :: TypeRef

record EnumValue =
  EnumValue_Name :: string

record Type =
  Type_Kind :: TypeKind
  Type_Name :: string
  Type_Fields :: "Field list"
  Type_InputFields :: "InputField list"
  Type_EnumValues :: "EnumValue list"

text \<open>
  \<^verbatim>\<open>FieldMeta\<close> and \<^verbatim>\<open>Node\<close>. A \<^verbatim>\<open>*Node\<close> held in \<^verbatim>\<open>Children\<close> is always a
  pointer taken from the graph's \<^verbatim>\<open>hashMap\<close>, so the model stores the key of
  that entry and dereferences it through the map.
\<close>

record FieldMeta =
  FieldMeta_Name :: string
  FieldMeta_Type :: string
  JSONTag :: string
  hasCycle :: bool
  isNullable :: bool

record Node =
  Node_Name :: string
  Node_Kind :: TypeKind
  Node_Fields :: "FieldMeta list"
  Node_Children :: "string list"

text \<open>The three loops of \<^verbatim>\<open>NewNode\<close>, each appending to \<^verbatim>\<open>node.Fields\<close>.\<close>

fun fieldMetas :: "Field list \<Rightarrow> FieldMeta list \<Rightarrow> error + FieldMeta list" where
  "fieldMetas [] acc = Inr acc"
| "fieldMetas (f # fs) acc =
     (case gqlTypeToGoType (Field_Type f) of
        Inl e \<Rightarrow> Inl e
      | Inr ty \<Rightarrow>
          fieldMetas fs (acc @
            [\<lparr>FieldMeta_Name = Field_Name f, FieldMeta_Type = ty, JSONTag = Field_Name f,
              hasCycle = False,
              isNullable = (TypeRef_Kind (Field_Type f) = NULL \<or> TypeRef_OfType (Field_Type f) = None)\<rparr>]))"

fun inputFieldMetas :: "InputField list \<Rightarrow> FieldMeta list \<Rightarrow> error + FieldMeta list" where
  "inputFieldMetas [] acc = Inr acc"
| "inputFieldMetas (f # fs) acc =
     (case gqlTypeToGoType (InputField_Type f) of
        Inl e \<Rightarrow> Inl e
      | Inr ty \<Rightarrow>
          inputFieldMetas fs (acc @
            [\<lparr>FieldMeta_Name = InputField_Name f, FieldMeta_Type = ty,
              JSONTag = InputField_Name f, hasCycle = False,
              isNullable = (TypeRef_Kind (InputField_Type f) = NULL
                            \<or> TypeRef_OfType (InputField_Type f) = None)\<rparr>]))"

fun enumMetas :: "string \<Rightarrow> EnumValue list \<Rightarrow> FieldMeta list \<Rightarrow> FieldMeta list" where
  "enumMetas schemaName [] acc = acc"
| "enumMetas schemaName (v # vs) acc =
     enumMetas schemaName vs (acc @
       [\<lparr>FieldMeta_Name = EnumValue_Name v, FieldMeta_Type = schemaName,
         JSONTag = EnumValue_Name v, hasCycle = False, isNullable = False\<rparr>])"

definition NewNode :: "Type \<Rightarrow> error + Node" where
  "NewNode schema =
     (let node = \<lparr>Node_Name = Type_Name schema, Node_Kind = Type_Kind schema,
                    Node_Fields = [], Node_Children = []\<rparr>
      in if Type_Kind schema = OBJECT \<or> Type_Kind schema = INTERFACE \<or> Type_Kind schema = UNION
         then (case fieldMetas (Type_Fields schema) (Node_Fields node) of
                 Inl e \<Rightarrow> Inl e
               | Inr fs \<Rightarrow> Inr (node\<lparr>Node_Fields := fs\<rparr>))
         else if Type_Kind schema = INPUT_OBJECT
         then (case inputFieldMetas (Type_InputFields schema) (Node_Fields node) of
                 Inl e \<Rightarrow> Inl e
               | Inr fs \<Rightarrow> Inr (node\<lparr>Node_Fields := fs\<rparr>))
         else if Type_Kind schema = ENUM
         then Inr (node\<lparr>Node_Fields :=
                     enumMetas (Type_Name schema) (Type_EnumValues schema) (Node_Fields node)\<rparr>)
         else Inr node)"

section \<open>Node graph: Collect, Link and cycle detection\<close>

text \<open>
  \<^verbatim>\<open>Nodes\<close>: \<^verbatim>\<open>hashMap map[string]*Node\<close> and \<^verbatim>\<open>sortOrder []string\<close>. The map
  is an association list read with \<^const>\<open>map_of\<close>: it is the store that the
  node pointers refer to, and the order of its entries stands for the
  unspecified iteration order of the Go map.
\<close>

type_synonym store = "(string \<times> Node) list"

record Nodes =
  hashMap :: store
  sortOrder :: "string list"

definition NewNodes :: Nodes where
  "NewNodes = \<lparr>hashMap = [], sortOrder = []\<rparr>"

text \<open>\<^verbatim>\<open>Nodes.Collect\<close> (the name \<open>Collect\<close> is taken by set comprehension in HOL).\<close>

definition Collect_node :: "Node \<Rightarrow> Nodes \<Rightarrow> Nodes" where
  "Collect_node nd n =
     (if map_of (hashMap n) (Node_Name nd) = None
      then n\<lparr>hashMap := AList.update (Node_Name nd) nd (hashMap n),
              sortOrder := sortOrder n @ [Node_Name nd]\<rparr>
      else n)"

text \<open>
  The first loop of \<^verbatim>\<open>Link\<close>, for one node: the fields are scanned with a local
  \<^verbatim>\<open>seen\<close> set, and the pointer \<^verbatim>\<open>n.hashMap[f.Type]\<close> is appended on the first
  occurrence of a registered type name.
\<close>

fun linkFields :: "store \<Rightarrow> FieldMeta list \<Rightarrow> string set \<Rightarrow> string list \<Rightarrow> string list" where
  "linkFields hm [] seen children = children"
| "linkFields hm (f # fs) seen children =
     (if map_of hm (FieldMeta_Type f) = None then linkFields hm fs seen children
      else linkFields hm fs (insert (FieldMeta_Type f) seen)
             (if FieldMeta_Type f \<notin> seen then children @ [FieldMeta_Type f] else children))"

definition linkNode :: "store \<Rightarrow> Node \<Rightarrow> Node" where
  "linkNode hm nd = nd\<lparr>Node_Children := linkFields hm (Node_Fields nd) {} (Node_Children nd)\<rparr>"

text \<open>
  \<^verbatim>\<open>for _, nd := range n.hashMap\<close>: an iteration writes \<^verbatim>\<open>nd.Children\<close> only and
  reads \<^verbatim>\<open>nd.Fields\<close> and the keys of the map only, so the loop updates every
  entry independently of the order in which Go visits them.
\<close>

definition linkChildren :: "store \<Rightarrow> store" where
  "linkChildren hm = map (\<lambda>(k, nd). (k, linkNode hm nd)) hm"

text \<open>
  \<^verbatim>\<open>Node.hasCycleWith\<close>, with the receiver and the argument given by their keys
  in the store. The map \<^verbatim>\<open>seen\<close> is shared by all recursive calls, so it is
  threaded through them and returned. The loop over \<^verbatim>\<open>n1.Children\<close> is
  \<open>hasCycleWith_children\<close>.
\<close>

definition nodeNames :: "store \<Rightarrow> string set" where
  "nodeNames hm = set (map (Node_Name \<circ> snd) hm)"


function hasCycleWith :: "store \<Rightarrow> string \<Rightarrow> string \<Rightarrow> string set \<Rightarrow> error + bool \<times> string set"
  and hasCycleWith_children :: "store \<Rightarrow> string \<Rightarrow> string list \<Rightarrow> string set \<Rightarrow> error + bool \<times> string set"
where
  "hasCycleWith hm n n1 seen =
     (case map_of hm n of
        None \<Rightarrow> Inl NilDereference
      | Some nd \<Rightarrow>
          if Node_Name nd \<in> seen then Inr (True, seen)
          else (case map_of hm n1 of
                  None \<Rightarrow> Inl NilDereference
                | Some nd1 \<Rightarrow>
                    if Node_Kind nd1 \<noteq> OBJECT \<and> Node_Kind nd1 \<noteq> INPUT_OBJECT then Inr (False, seen)
                    else hasCycleWith_children hm n1 (Node_Children nd1) (insert (Node_Name nd) seen)))"
| "hasCycleWith_children hm n1 [] seen = Inr (False, seen)"
| "hasCycleWith_children hm n1 (c # cs) seen =
     (case hasCycleWith hm n1 c seen of
        Inl e \<Rightarrow> Inl e
      | Inr (b, seen') \<Rightarrow>
          if b then Inr (True, seen') else hasCycleWith_children hm n1 cs seen')"
  by pat_completeness auto

text \<open>
  On its domain the traversal only adds names to \<open>seen\<close>; with that, every
  recursive call either shrinks the set of node names not yet seen or, inside
  the loop over the children, keeps it and shortens the list still to visit.
\<close>

lemma hasCycleWith_seen_mono:
  "hasCycleWith_hasCycleWith_children_dom (Inl (hm, n, n1, seen)) \<Longrightarrow>
     hasCycleWith hm n n1 seen = Inr (b, seen') \<Longrightarrow> seen \<subseteq> seen'"
  "hasCycleWith_hasCycleWith_children_dom (Inr (hm, n1, cs, seen)) \<Longrightarrow>
     hasCycleWith_children hm n1 cs seen = Inr (b, seen') \<Longrightarrow> seen \<subseteq> seen'"
proof (induction hm n n1 seen and hm n1 cs seen arbitrary: b seen' and b seen'
       rule: hasCycleWith_hasCycleWith_children.pinduct)
  case (1 hm n n1 seen)
  then show ?case
    by (auto simp: hasCycleWith.psimps split: option.splits if_splits)
next
  case (2 hm n1 seen)
  then show ?case by (simp add: hasCycleWith_children.psimps)
next
  case (3 hm n1 c cs seen)
  from "3.prems" "3.hyps" obtain b1 s1 where
    r: "hasCycleWith hm n1 c seen = Inr (b1, s1)"
    by (auto simp: hasCycleWith_children.psimps split: sum.splits)
  have m1: "seen \<subseteq> s1" using "3.IH"(1) [OF r] .
  show ?case
  proof (cases b1)
    case True
    with "3.prems" "3.hyps" r m1 show ?thesis
      by (simp add: hasCycleWith_children.psimps)
  next
    case False
    with "3.prems" "3.hyps" r have "hasCycleWith_children hm n1 cs s1 = Inr (b, seen')"
      by (simp add: hasCycleWith_children.psimps)
    with "3.IH"(2) r False have "s1 \<subseteq> seen'" by blast
    with m1 show ?thesis by blast
  qed
qed

termination hasCycleWith
proof (relation "inv_image (less_than <*lex*> less_than)
         (\<lambda>x. case x of
                 Inl (hm, n, n1, seen) \<Rightarrow> (card (nodeNames hm - seen), 0)
               | Inr (hm, n1, cs, seen) \<Rightarrow> (card (nodeNames hm - seen), Suc (length cs)))", goal_cases)
  case 1
  show ?case by auto
next
  case (2 hm n n1 seen nd nd1)
  have "Node_Name nd \<in> nodeNames hm"
    using 2(1) by (force simp: nodeNames_def dest: map_of_SomeD)
  moreover have "finite (nodeNames hm)" by (simp add: nodeNames_def)
  ultimately have "card (nodeNames hm - insert (Node_Name nd) seen) < card (nodeNames hm - seen)"
    using 2(2) by (intro psubset_card_mono) auto
  then show ?case by simp
next
  case (3 hm n1 c cs seen)
  then show ?case by simp
next
  case (4 hm n1 c cs seen x y seen')
  then have "seen \<subseteq> seen'" using hasCycleWith_seen_mono(1) by (metis prod.collapse)
  then have "card (nodeNames hm - seen') \<le> card (nodeNames hm - seen)"
    by (intro card_mono) (auto simp: nodeNames_def)
  then show ?case by auto
qed

declare hasCycleWith.simps [simp del]

text \<open>
  \<^verbatim>\<open>Node.markCycles\<close>: for every child a fresh \<^verbatim>\<open>seen\<close>; when the traversal
  reports a cycle, every field of the node whose type is the child's name gets
  \<^verbatim>\<open>hasCycle = true\<close>, written through to the store.
\<close>

definition flagFields :: "string \<Rightarrow> FieldMeta list \<Rightarrow> FieldMeta list" where
  "flagFields cname fs = map (\<lambda>f. if FieldMeta_Type f = cname then f\<lparr>hasCycle := True\<rparr> else f) fs"

fun markCycles_children :: "store \<Rightarrow> string \<Rightarrow> string list \<Rightarrow> error + store" where
  "markCycles_children hm n [] = Inr hm"
| "markCycles_children hm n (c # cs) =
     (case hasCycleWith hm n c {} of
        Inl e \<Rightarrow> Inl e
      | Inr (b, seen) \<Rightarrow>
          if \<not> b then markCycles_children hm n cs
          else (case map_of hm c of
                  None \<Rightarrow> Inl NilDereference
                | Some cn \<Rightarrow>
                    markCycles_children
                      (AList.map_entry n
                         (\<lambda>nd. nd\<lparr>Node_Fields := flagFields (Node_Name cn) (Node_Fields nd)\<rparr>) hm)
                      n cs))"

definition markCycles :: "store \<Rightarrow> string \<Rightarrow> error + store" where
  "markCycles hm n =
     (case map_of hm n of
        None \<Rightarrow> Inl NilDereference
      | Some nd \<Rightarrow> markCycles_children hm n (Node_Children nd))"

fun markAll :: "string list \<Rightarrow> store \<Rightarrow> error + store" where
  "markAll [] hm = Inr hm"
| "markAll (k # ks) hm =
     (case markCycles hm k of
        Inl e \<Rightarrow> Inl e
      | Inr hm' \<Rightarrow> markAll ks hm')"

definition Link :: "Nodes \<Rightarrow> error + Nodes" where
  "Link n =
     (case markAll (sortOrder n) (linkChildren (hashMap n)) of
        Inl e \<Rightarrow> Inl e
      | Inr hm \<Rightarrow> Inr (n\<lparr>hashMap := hm\<rparr>))"

section \<open>Identifier exporter (util.go)\<close>

text \<open>
  \<^verbatim>\<open>strings.ToUpper\<close> and \<^verbatim>\<open>strings.ToLower\<close> belong to the Go standard library
  and apply Unicode case mapping; they are parameters \<open>ToUpper\<close> and
  \<open>ToLower\<close> of every function that calls them. \<^verbatim>\<open>strings.HasSuffix\<close>,
  \<^verbatim>\<open>strings.Split\<close> (for a separator of one byte) and \<^verbatim>\<open>strings.Join\<close> work on
  bytes and are written out.
\<close>

definition HasSuffix :: "string \<Rightarrow> string \<Rightarrow> bool" where
  "HasSuffix s suffix =
     (length s \<ge> length suffix \<and> drop (length s - length suffix) s = suffix)"

fun Split :: "string \<Rightarrow> char \<Rightarrow> string list" where
  "Split [] sep = [[]]"
| "Split (c # cs) sep =
     (if c = sep then [] # Split cs sep
      else (case Split cs sep of
              [] \<Rightarrow> [[c]]
            | w # ws \<Rightarrow> (c # w) # ws))"

fun Join :: "string list \<Rightarrow> string \<Rightarrow> string" where
  "Join [] sep = []"
| "Join [e] sep = e"
| "Join (e # e' # es) sep = e @ sep @ Join (e' # es) sep"

definition special :: "(string \<times> string) list" where
  "special = [(''id'', ''ID''), (''uri'', ''URI''), (''url'', ''URL''), (''api'', ''API'')]"

definition exceptions :: "string list" where
  "exceptions = [''valid'', ''invalid'', ''liquid'']"

definition hasSuffix :: "(string \<Rightarrow> string) \<Rightarrow> string \<Rightarrow> string \<Rightarrow> bool" where
  "hasSuffix ToLower s suffix = HasSuffix (ToLower s) suffix"

text \<open>\<^verbatim>\<open>s[:1]\<close> panics on the empty string.\<close>

definition toUpper :: "(string \<Rightarrow> string) \<Rightarrow> string \<Rightarrow> error + string" where
  "toUpper ToUpper s =
     (if length s < 1 then Inl SliceOutOfRange else Inr (ToUpper (take 1 s) @ drop 1 s))"

fun inExceptions :: "(string \<Rightarrow> string) \<Rightarrow> string \<Rightarrow> string list \<Rightarrow> bool" where
  "inExceptions ToLower word [] = False"
| "inExceptions ToLower word (v # vs) =
     (if length word \<ge> length v \<and> hasSuffix ToLower word v then True
      else inExceptions ToLower word vs)"

text \<open>
  \<^verbatim>\<open>for k, v := range special\<close> visits the keys in an unspecified order. No
  string ends with two of the four keys, so at most one iteration returns and
  the order does not matter; the model visits them as listed.
\<close>

fun specialSuffix :: "(string \<Rightarrow> string) \<Rightarrow> string \<Rightarrow> (string \<times> string) list \<Rightarrow> string option" where
  "specialSuffix ToLower word [] = None"
| "specialSuffix ToLower word ((k, v) # kvs) =
     (if length word > length k \<and> hasSuffix ToLower word k
      then Some (take (length word - length k) word @ v)
      else specialSuffix ToLower word kvs)"

definition capitalizeWord :: "(string \<Rightarrow> string) \<Rightarrow> string \<Rightarrow> string" where
  "capitalizeWord ToLower word =
     (case map_of special word of
        Some val \<Rightarrow> val
      | None \<Rightarrow>
          if inExceptions ToLower word exceptions then word
          else (case specialSuffix ToLower word special of
                  Some r \<Rightarrow> r
                | None \<Rightarrow> word))"

fun capitalizeWords ::
  "(string \<Rightarrow> string) \<Rightarrow> (string \<Rightarrow> string) \<Rightarrow> string list \<Rightarrow> error + string list" where
  "capitalizeWords ToUpper ToLower [] = Inr []"
| "capitalizeWords ToUpper ToLower (word # words) =
     (case toUpper ToUpper (capitalizeWord ToLower word) of
        Inl e \<Rightarrow> Inl e
      | Inr w \<Rightarrow>
          (case capitalizeWords ToUpper ToLower words of
             Inl e \<Rightarrow> Inl e
           | Inr ws \<Rightarrow> Inr (w # ws)))"

definition capitalize ::
  "(string \<Rightarrow> string) \<Rightarrow> (string \<Rightarrow> string) \<Rightarrow> string \<Rightarrow> error + string" where
  "capitalize ToUpper ToLower input =
     (if input = [] then Inr input
      else (case capitalizeWords ToUpper ToLower (Split input (CHR ''_'')) of
              Inl e \<Rightarrow> Inl e
            | Inr words \<Rightarrow> Inr (Join words [])))"

section \<open>Code emitter (node.go)\<close>

text \<open>
  The three field templates of \<^verbatim>\<open>toGoStruct\<close>, each a \<^verbatim>\<open>Sprintf\<close> format with
  three \<^verbatim>\<open>%s\<close> verbs. Byte \<open>0x09\<close> is the tab, \<open>0x0A\<close> the newline, \<open>0x22\<close>
  the double quote and \<open>0x60\<close> the backquote.
\<close>

definition tmplValue :: "string \<Rightarrow> string \<Rightarrow> string \<Rightarrow> string" where
  "tmplValue a b c =
     [CHR 0x09] @ a @ '' '' @ b @ '' '' @ [CHR 0x60] @ ''json:'' @ [CHR 0x22] @ c
       @ [CHR 0x22, CHR 0x60, CHR 0x0A]"

definition tmplNullable :: "string \<Rightarrow> string \<Rightarrow> string \<Rightarrow> string" where
  "tmplNullable a b c =
     [CHR 0x09] @ a @ '' *'' @ b @ '' '' @ [CHR 0x60] @ ''json:'' @ [CHR 0x22] @ c
       @ '',omitempty'' @ [CHR 0x22, CHR 0x60, CHR 0x0A]"

definition tmplCycle :: "string \<Rightarrow> string \<Rightarrow> string \<Rightarrow> string" where
  "tmplCycle a b c =
     [CHR 0x09] @ a @ '' *'' @ b @ '' '' @ [CHR 0x60] @ ''json:'' @ [CHR 0x22] @ c
       @ [CHR 0x22, CHR 0x60, CHR 0x0A]"

text \<open>
  The choice of \<^verbatim>\<open>fieldTmpl\<close> in the loop body of \<^verbatim>\<open>toGoStruct\<close>: assigned,
  then overwritten when the field is nullable, then overwritten when it has a
  cycle.
\<close>

definition fieldTmpl :: "FieldMeta \<Rightarrow> string \<Rightarrow> string \<Rightarrow> string \<Rightarrow> string" where
  "fieldTmpl f =
     (let t = tmplValue;
          t = (if isNullable f then tmplNullable else t);
          t = (if hasCycle f then tmplCycle else t)
      in t)"

fun toGoStruct_fields ::
  "(string \<Rightarrow> string) \<Rightarrow> (string \<Rightarrow> string) \<Rightarrow> FieldMeta list \<Rightarrow> string \<Rightarrow> error + string" where
  "toGoStruct_fields ToUpper ToLower [] out = Inr out"
| "toGoStruct_fields ToUpper ToLower (f # fs) out =
     (case capitalize ToUpper ToLower (FieldMeta_Name f) of
        Inl e \<Rightarrow> Inl e
      | Inr name \<Rightarrow>
          toGoStruct_fields ToUpper ToLower fs
            (out @ fieldTmpl f name (FieldMeta_Type f) (JSONTag f)))"

definition toGoStruct ::
  "(string \<Rightarrow> string) \<Rightarrow> (string \<Rightarrow> string) \<Rightarrow> Node \<Rightarrow> error + string" where
  "toGoStruct ToUpper ToLower n =
     (case toGoStruct_fields ToUpper ToLower (Node_Fields n)
             (''type '' @ Node_Name n @ '' struct {'' @ [CHR 0x0A]) of
        Inl e \<Rightarrow> Inl e
      | Inr out \<Rightarrow> Inr (out @ ''}'' @ [CHR 0x0A]))"

fun toGoInterface_fields ::
  "(string \<Rightarrow> string) \<Rightarrow> (string \<Rightarrow> string) \<Rightarrow> FieldMeta list \<Rightarrow> string \<Rightarrow> error + string" where
  "toGoInterface_fields ToUpper ToLower [] out = Inr out"
| "toGoInterface_fields ToUpper ToLower (f # fs) out =
     (case capitalize ToUpper ToLower (FieldMeta_Name f) of
        Inl e \<Rightarrow> Inl e
      | Inr name \<Rightarrow>
          toGoInterface_fields ToUpper ToLower fs
            (out @ [CHR 0x09] @ name @ ''() '' @ FieldMeta_Type f @ [CHR 0x0A]))"

definition toGoInterface ::
  "(string \<Rightarrow> string) \<Rightarrow> (string \<Rightarrow> string) \<Rightarrow> Node \<Rightarrow> error + string" where
  "toGoInterface ToUpper ToLower n =
     (case toGoInterface_fields ToUpper ToLower (Node_Fields n)
             (''type '' @ Node_Name n @ '' interface {'' @ [CHR 0x0A]) of
        Inl e \<Rightarrow> Inl e
      | Inr out \<Rightarrow> Inr (out @ ''}'' @ [CHR 0x0A]))"

fun toGoEnum_fields ::
  "(string \<Rightarrow> string) \<Rightarrow> (string \<Rightarrow> string) \<Rightarrow> string \<Rightarrow> FieldMeta list \<Rightarrow> string \<Rightarrow> error + string" where
  "toGoEnum_fields ToUpper ToLower nname [] out = Inr out"
| "toGoEnum_fields ToUpper ToLower nname (f # fs) out =
     (case capitalize ToUpper ToLower (ToLower (FieldMeta_Name f)) of
        Inl e \<Rightarrow> Inl e
      | Inr name \<Rightarrow>
          toGoEnum_fields ToUpper ToLower nname fs
            (out @ [CHR 0x09] @ nname @ name @ '' '' @ nname @ '' = '' @ [CHR 0x22]
               @ FieldMeta_Name f @ [CHR 0x22, CHR 0x0A]))"

definition toGoEnum ::
  "(string \<Rightarrow> string) \<Rightarrow> (string \<Rightarrow> string) \<Rightarrow> Node \<Rightarrow> error + string" where
  "toGoEnum ToUpper ToLower n =
     (case toGoEnum_fields ToUpper ToLower (Node_Name n) (Node_Fields n)
             (''type '' @ Node_Name n @ '' string'' @ [CHR 0x0A, CHR 0x0A]
                @ ''const ('' @ [CHR 0x0A]) of
        Inl e \<Rightarrow> Inl e
      | Inr out \<Rightarrow> Inr (out @ '')'' @ [CHR 0x0A]))"

text \<open>
  \<^verbatim>\<open>Nodes.ToGoTypes\<close>: the loop over \<^verbatim>\<open>sortOrder\<close> appends one declaration per
  name to \<^verbatim>\<open>out\<close>; a kind with no emitter is the explicit \<^verbatim>\<open>panic\<close>.
\<close>

definition emitNode ::
  "(string \<Rightarrow> string) \<Rightarrow> (string \<Rightarrow> string) \<Rightarrow> Node \<Rightarrow> error + string" where
  "emitNode ToUpper ToLower nd =
     (if Node_Kind nd = OBJECT \<or> Node_Kind nd = INPUT_OBJECT \<or> Node_Kind nd = UNION
      then toGoStruct ToUpper ToLower nd
      else if Node_Kind nd = INTERFACE then toGoInterface ToUpper ToLower nd
      else if Node_Kind nd = ENUM then toGoEnum ToUpper ToLower nd
      else Inl (UnsupportedType (Node_Kind nd)))"

fun ToGoTypes_loop ::
  "(string \<Rightarrow> string) \<Rightarrow> (string \<Rightarrow> string) \<Rightarrow> store \<Rightarrow> string list \<Rightarrow> string list
     \<Rightarrow> error + string list" where
  "ToGoTypes_loop ToUpper ToLower hm [] out = Inr out"
| "ToGoTypes_loop ToUpper ToLower hm (v # vs) out =
     (case map_of hm v of
        None \<Rightarrow> Inl NilDereference
      | Some nd \<Rightarrow>
          (case emitNode ToUpper ToLower nd of
             Inl e \<Rightarrow> Inl e
           | Inr decl \<Rightarrow> ToGoTypes_loop ToUpper ToLower hm vs (out @ [decl])))"

definition ToGoTypes ::
  "(string \<Rightarrow> string) \<Rightarrow> (string \<Rightarrow> string) \<Rightarrow> Nodes \<Rightarrow> error + string" where
  "ToGoTypes ToUpper ToLower n =
     (case ToGoTypes_loop ToUpper ToLower (hashMap n) (sortOrder n) [] of
        Inl e \<Rightarrow> Inl e
      | Inr out \<Rightarrow> Inr (Join out [CHR 0x0A]))"

section \<open>Building a graph from a schema\<close>

text \<open>
  The way the package is driven (as in \<^verbatim>\<open>TestNodes_ToGoTypes\<close>):
  \<^verbatim>\<open>nodes := NewNodes(); for _, t := range types { nodes.Collect(NewNode(t)) }; nodes.Link()\<close>.
\<close>

fun collectTypes :: "Type list \<Rightarrow> Nodes \<Rightarrow> error + Nodes" where
  "collectTypes [] n = Inr n"
| "collectTypes (t # ts) n =
     (case NewNode t of
        Inl e \<Rightarrow> Inl e
      | Inr nd \<Rightarrow> collectTypes ts (Collect_node nd n))"

definition buildGraph :: "Type list \<Rightarrow> error + Nodes" where
  "buildGraph ts =
     (case collectTypes ts NewNodes of
        Inl e \<Rightarrow> Inl e
      | Inr n \<Rightarrow> Link n)"

section \<open>Depth-bounded traversal\<close>

text \<open>
  The same traversal as \<^const>\<open>hasCycleWith\<close> with a budget \<open>d\<close> of nested
  calls: every call of \<^verbatim>\<open>hasCycleWith\<close> spends one unit, and \<open>None\<close> means that the
  budget ran out before the call returned.
\<close>

fun hasCycleWith_depth ::
  "nat \<Rightarrow> store \<Rightarrow> string \<Rightarrow> string \<Rightarrow> string set \<Rightarrow> (error + bool \<times> string set) option"
  and hasCycleWith_children_depth ::
  "nat \<Rightarrow> store \<Rightarrow> string \<Rightarrow> string list \<Rightarrow> string set \<Rightarrow> (error + bool \<times> string set) option"
where
  "hasCycleWith_depth 0 hm n n1 seen = None"
| "hasCycleWith_depth (Suc d) hm n n1 seen =
     (case map_of hm n of
        None \<Rightarrow> Some (Inl NilDereference)
      | Some nd \<Rightarrow>
          if Node_Name nd \<in> seen then Some (Inr (True, seen))
          else (case map_of hm n1 of
                  None \<Rightarrow> Some (Inl NilDereference)
                | Some nd1 \<Rightarrow>
                    if Node_Kind nd1 \<noteq> OBJECT \<and> Node_Kind nd1 \<noteq> INPUT_OBJECT
                    then Some (Inr (False, seen))
                    else hasCycleWith_children_depth d hm n1 (Node_Children nd1)
                           (insert (Node_Name nd) seen)))"
| "hasCycleWith_children_depth d hm n1 [] seen = Some (Inr (False, seen))"
| "hasCycleWith_children_depth d hm n1 (c # cs) seen =
     (case hasCycleWith_depth d hm n1 c seen of
        None \<Rightarrow> None
      | Some (Inl e) \<Rightarrow> Some (Inl e)
      | Some (Inr (b, seen')) \<Rightarrow>
          if b then Some (Inr (True, seen'))
          else hasCycleWith_children_depth d hm n1 cs seen')"

section \<open>Specification-side notions\<close>

text \<open>
  The spec's words, for comparison with the code: the child graph restricted
  to nodes of kind \<^verbatim>\<open>OBJECT\<close> or \<^verbatim>\<open>INPUT_OBJECT\<close>, and "there is a path from
  \<open>c\<close> back to \<open>n\<close>" in it.
\<close>

definition spec_isObject :: "store \<Rightarrow> string \<Rightarrow> bool" where
  "spec_isObject hm a =
     (\<exists>nd. map_of hm a = Some nd \<and> (Node_Kind nd = OBJECT \<or> Node_Kind nd = INPUT_OBJECT))"

definition spec_objectEdges :: "store \<Rightarrow> (string \<times> string) set" where
  "spec_objectEdges hm =
     {(a, b). spec_isObject hm a \<and> spec_isObject hm b
              \<and> (\<exists>nd. map_of hm a = Some nd \<and> b \<in> set (Node_Children nd))}"

definition spec_pathBack :: "store \<Rightarrow> string \<Rightarrow> string \<Rightarrow> bool" where
  "spec_pathBack hm c n = (spec_isObject hm c \<and> (c, n) \<in> (spec_objectEdges hm)\<^sup>*)"

text \<open>
  "A cycle with or via \<open>c\<close>" (the words of the doc comment of \<^verbatim>\<open>hasCycleWith\<close>): some
  cycle of the restricted child graph can be reached from \<open>c\<close>.
\<close>

definition spec_leadsToCycle :: "store \<Rightarrow> string \<Rightarrow> bool" where
  "spec_leadsToCycle hm c =
     (spec_isObject hm c
      \<and> (\<exists>x. (c, x) \<in> (spec_objectEdges hm)\<^sup>* \<and> (x, x) \<in> (spec_objectEdges hm)\<^sup>+))"

text \<open>
  The spec's words for the field representation: indirect when the field has a
  cycle, else optional with the omit-if-absent hint when it is nullable, else a
  direct value; the tag is the original field name.
\<close>

definition spec_fieldLine :: "string \<Rightarrow> FieldMeta \<Rightarrow> string" where
  "spec_fieldLine ident f =
     (if hasCycle f then
        [CHR 0x09] @ ident @ '' *'' @ FieldMeta_Type f @ '' '' @ [CHR 0x60] @ ''json:''
          @ [CHR 0x22] @ FieldMeta_Name f @ [CHR 0x22, CHR 0x60, CHR 0x0A]
      else if isNullable f then
        [CHR 0x09] @ ident @ '' *'' @ FieldMeta_Type f @ '' '' @ [CHR 0x60] @ ''json:''
          @ [CHR 0x22] @ FieldMeta_Name f @ '',omitempty'' @ [CHR 0x22, CHR 0x60, CHR 0x0A]
      else
        [CHR 0x09] @ ident @ '' '' @ FieldMeta_Type f @ '' '' @ [CHR 0x60] @ ''json:''
          @ [CHR 0x22] @ FieldMeta_Name f @ [CHR 0x22, CHR 0x60, CHR 0x0A])"

text \<open>The spec's "first-seen insertion order" of a sequence of names.\<close>

fun spec_firstSeen :: "string list \<Rightarrow> string list \<Rightarrow> string list" where
  "spec_firstSeen acc [] = acc"
| "spec_firstSeen acc (x # xs) = spec_firstSeen (if x \<in> set acc then acc else acc @ [x]) xs"

section \<open>Concrete inputs\<close>

text \<open>
  On ASCII input the library's \<^verbatim>\<open>strings.ToUpper\<close> and \<^verbatim>\<open>strings.ToLower\<close> are
  the byte-wise maps below; they instantiate the two parameters on the
  concrete schemas.
\<close>

definition asciiToUpper :: "string \<Rightarrow> string" where
  "asciiToUpper s =
     map (\<lambda>c. let n = (of_char c :: nat) in if 97 \<le> n \<and> n \<le> 122 then char_of (n - 32) else c) s"

definition asciiToLower :: "string \<Rightarrow> string" where
  "asciiToLower s =
     map (\<lambda>c. let n = (of_char c :: nat) in if 65 \<le> n \<and> n \<le> 90 then char_of (n + 32) else c) s"

definition objectType :: "string \<Rightarrow> (string \<times> TypeRef) list \<Rightarrow> Type" where
  "objectType name fs =
     \<lparr>Type_Kind = OBJECT, Type_Name = name,
      Type_Fields = map (\<lambda>(a, b). \<lparr>Field_Name = a, Field_Type = b\<rparr>) fs,
      Type_InputFields = [], Type_EnumValues = []\<rparr>"

text \<open>
  The schema of the test case "schema with cycle" of \<^verbatim>\<open>TestNodes_ToGoTypes\<close>:
  \<^verbatim>\<open>Product\<close> refers to \<^verbatim>\<open>ProductVariant\<close>, which refers to \<^verbatim>\<open>InventoryItem\<close>,
  which refers back to \<^verbatim>\<open>ProductVariant\<close>.
\<close>

definition cycleSchema :: "Type list" where
  "cycleSchema =
     [objectType ''Product''
        [(''name'', TypeRef SCALAR ''String'' (Some (TypeRef SCALAR ''String'' None))),
         (''variant'', TypeRef OBJECT ''ProductVariant''
                         (Some (TypeRef OBJECT ''ProductVariant'' None)))],
      objectType ''ProductVariant''
        [(''id'', TypeRef SCALAR ''ID'' (Some (TypeRef SCALAR ''String'' None))),
         (''barcode'', TypeRef SCALAR ''String'' (Some (TypeRef SCALAR ''String'' None))),
         (''inventoryItem'', TypeRef NON_NULL [] (Some (TypeRef OBJECT ''InventoryItem'' None)))],
      objectType ''InventoryItem''
        [(''harmonizedSystemCode'',
            TypeRef SCALAR ''String'' (Some (TypeRef SCALAR ''String'' None))),
         (''variant'', TypeRef NON_NULL [] (Some (TypeRef OBJECT ''ProductVariant'' None)))]]"

text \<open>
  A schema with an enum, and the same type name declared twice:
  \<^verbatim>\<open>Query\<close> has a field of the enum \<^verbatim>\<open>Status\<close>, a nullable field of its own
  type and a nullable scalar field.
\<close>

definition enumSchema :: "Type list" where
  "enumSchema =
     [objectType ''Query''
        [(''status'', TypeRef ENUM ''Status'' (Some (TypeRef ENUM ''Status'' None))),
         (''parent'', TypeRef OBJECT ''Query'' None),
         (''label'', TypeRef SCALAR ''String'' None)],
      \<lparr>Type_Kind = ENUM, Type_Name = ''Status'', Type_Fields = [], Type_InputFields = [],
       Type_EnumValues = [\<lparr>EnumValue_Name = ''ACTIVE''\<rparr>, \<lparr>EnumValue_Name = ''INACTIVE''\<rparr>]\<rparr>,
      objectType ''Query'' []]"

section \<open>Auxiliary notions of the proofs\<close>

text \<open>The string literals that the decoder accepts, as the spec lists them.\<close>

definition knownKindLiterals :: "string set" where
  "knownKindLiterals = {''NULL'', ''NON_NULL'', ''SCALAR'', ''OBJECT'', ''INTERFACE'', ''UNION'', ''ENUM'',
      ''INPUT_OBJECT'', ''LIST''}"

text \<open>
  What the traversal reads of a node is its name, kind and children. Two
  stores with the same such skeleton are indistinguishable to it. A store is
  closed when every entry is filed under its own name and every child pointer
  leads to an entry.
\<close>

definition skel :: "Node \<Rightarrow> string \<times> TypeKind \<times> string list" where
  "skel nd = (Node_Name nd, Node_Kind nd, Node_Children nd)"

definition sameSkel :: "store \<Rightarrow> store \<Rightarrow> bool" where
  "sameSkel hm hm' = (\<forall>k. map_option skel (map_of hm k) = map_option skel (map_of hm' k))"

definition closedStore :: "store \<Rightarrow> bool" where
  "closedStore hm =
     (\<forall>k nd. map_of hm k = Some nd \<longrightarrow>
        Node_Name nd = k \<and> (\<forall>c \<in> set (Node_Children nd). map_of hm c \<noteq> None))"

text \<open>Two small linked stores: a self-loop, and a cycle through three nodes.\<close>

definition mkNode :: "string \<Rightarrow> TypeKind \<Rightarrow> string list \<Rightarrow> string \<times> Node" where
  "mkNode name kind children =
     (name, \<lparr>Node_Name = name, Node_Kind = kind, Node_Fields = [], Node_Children = children\<rparr>)"

definition selfLoopStore :: store where
  "selfLoopStore = [mkNode ''A'' OBJECT [''A'']]"

definition threeCycleStore :: store where
  "threeCycleStore =
     [mkNode ''A'' OBJECT [''B''], mkNode ''B'' INPUT_OBJECT [''C''], mkNode ''C'' OBJECT [''A'']]"

definition setFlags :: "string set \<Rightarrow> FieldMeta list \<Rightarrow> FieldMeta list" where
  "setFlags S fs = map (\<lambda>f. if FieldMeta_Type f \<in> S then f\<lparr>hasCycle := True\<rparr> else f) fs"

definition cyclicChildren :: "store \<Rightarrow> string \<Rightarrow> string list \<Rightarrow> string set" where
  "cyclicChildren hm n cs = {c \<in> set cs. \<exists>s. hasCycleWith hm n c {} = Inr (True, s)}"

definition markedNode :: "store \<Rightarrow> string \<Rightarrow> Node \<Rightarrow> Node" where
  "markedNode hm k nd =
     nd\<lparr>Node_Fields := setFlags (cyclicChildren hm k (Node_Children nd)) (Node_Fields nd)\<rparr>"

text \<open>Invariant of a graph under construction.\<close>

definition freshNode :: "Node \<Rightarrow> bool" where
  "freshNode nd =
     (Node_Children nd = []
      \<and> (\<forall>f \<in> set (Node_Fields nd). \<not> hasCycle f \<and> JSONTag f = FieldMeta_Name f)
      \<and> (Node_Kind nd = ENUM \<longrightarrow> (\<forall>f \<in> set (Node_Fields nd). FieldMeta_Type f = Node_Name nd)))"

definition graphInv :: "Nodes \<Rightarrow> bool" where
  "graphInv n =
     (distinct (sortOrder n) \<and> set (sortOrder n) = dom (map_of (hashMap n))
      \<and> (\<forall>k nd. map_of (hashMap n) k = Some nd \<longrightarrow> Node_Name nd = k \<and> freshNode nd))"

definition frameOf :: "Node \<Rightarrow> string \<times> TypeKind \<times> (string \<times> string \<times> string \<times> bool) list" where
  "frameOf nd =
     (Node_Name nd, Node_Kind nd,
      map (\<lambda>f. (FieldMeta_Name f, FieldMeta_Type f, JSONTag f, isNullable f)) (Node_Fields nd))"

definition freshField :: "FieldMeta \<Rightarrow> bool" where
  "freshField f = (\<not> hasCycle f \<and> JSONTag f = FieldMeta_Name f)"

definition hasKids :: "store \<Rightarrow> string \<Rightarrow> bool" where
  "hasKids hm x = (\<exists>nd. map_of hm x = Some nd \<and> Node_Children nd \<noteq> [])"

definition fm :: "string \<Rightarrow> string \<Rightarrow> bool \<Rightarrow> bool \<Rightarrow> FieldMeta" where
  "fm name ty cyc nullable =
     \<lparr>FieldMeta_Name = name, FieldMeta_Type = ty, JSONTag = name, hasCycle = cyc, isNullable = nullable\<rparr>"

definition cycleLinked :: Nodes where
  "cycleLinked =
     \<lparr>hashMap =
        [(''Product'',
          \<lparr>Node_Name = ''Product'', Node_Kind = OBJECT,
           Node_Fields = [fm ''name'' ''string'' False False,
                          fm ''variant'' ''ProductVariant'' True False],
           Node_Children = [''ProductVariant'']\<rparr>),
         (''ProductVariant'',
          \<lparr>Node_Name = ''ProductVariant'', Node_Kind = OBJECT,
           Node_Fields = [fm ''id'' ''string'' False False,
                          fm ''barcode'' ''string'' False False,
                          fm ''inventoryItem'' ''InventoryItem'' True False],
           Node_Children = [''InventoryItem'']\<rparr>),
         (''InventoryItem'',
          \<lparr>Node_Name = ''InventoryItem'', Node_Kind = OBJECT,
           Node_Fields = [fm ''harmonizedSystemCode'' ''string'' False False,
                          fm ''variant'' ''ProductVariant'' True False],
           Node_Children = [''ProductVariant'']\<rparr>)],
      sortOrder = [''Product'', ''ProductVariant'', ''InventoryItem'']\<rparr>"

definition enumCollected :: Nodes where
  "enumCollected =
     \<lparr>hashMap =
        [(''Query'',
          \<lparr>Node_Name = ''Query'', Node_Kind = OBJECT,
           Node_Fields = [fm ''status'' ''Status'' False False,
                          fm ''parent'' ''Query'' False True,
                          fm ''label'' ''string'' False True],
           Node_Children = []\<rparr>),
         (''Status'',
          \<lparr>Node_Name = ''Status'', Node_Kind = ENUM,
           Node_Fields = [fm ''ACTIVE'' ''Status'' False False,
                          fm ''INACTIVE'' ''Status'' False False],
           Node_Children = []\<rparr>)],
      sortOrder = [''Query'', ''Status'']\<rparr>"

definition enumLinked :: Nodes where
  "enumLinked =
     \<lparr>hashMap =
        [(''Query'',
          \<lparr>Node_Name = ''Query'', Node_Kind = OBJECT,
           Node_Fields = [fm ''status'' ''Status'' False False,
                          fm ''parent'' ''Query'' True True,
                          fm ''label'' ''string'' False True],
           Node_Children = [''Status'', ''Query'']\<rparr>),
         (''Status'',
          \<lparr>Node_Name = ''Status'', Node_Kind = ENUM,
           Node_Fields = [fm ''ACTIVE'' ''Status'' False False,
                          fm ''INACTIVE'' ''Status'' False False],
           Node_Children = [''Status'']\<rparr>)],
      sortOrder = [''Query'', ''Status'']\<rparr>"

definition spec_emitted ::
  "(string \<Rightarrow> string) \<Rightarrow> (string \<Rightarrow> string) \<Rightarrow> store \<Rightarrow> string \<Rightarrow> string \<Rightarrow> bool" where
  "spec_emitted ToUpper ToLower hm k decl =
     (\<exists>nd. map_of hm k = Some nd \<and> emitNode ToUpper ToLower nd = Inr decl)"

definition queryLinked :: Node where
  "queryLinked =
     \<lparr>Node_Name = ''Query'', Node_Kind = OBJECT,
      Node_Fields = [fm ''status'' ''Status'' False False,
                     fm ''parent'' ''Query'' True True,
                     fm ''label'' ''string'' False True],
      Node_Children = [''Status'', ''Query'']\<rparr>"

definition queryDecl :: string where
  "queryDecl =
     ''type Query struct {'' @ [CHR 0x0A]
     @ [CHR 0x09] @ ''Status Status '' @ [CHR 0x60] @ ''json:'' @ [CHR 0x22] @ ''status''
       @ [CHR 0x22, CHR 0x60, CHR 0x0A]
     @ [CHR 0x09] @ ''Parent *Query '' @ [CHR 0x60] @ ''json:'' @ [CHR 0x22] @ ''parent''
       @ [CHR 0x22, CHR 0x60, CHR 0x0A]
     @ [CHR 0x09] @ ''Label *string '' @ [CHR 0x60] @ ''json:'' @ [CHR 0x22] @ ''label,omitempty''
       @ [CHR 0x22, CHR 0x60, CHR 0x0A]
     @ ''}'' @ [CHR 0x0A]"

definition statusDecl :: string where
  "statusDecl =
     ''type Status string'' @ [CHR 0x0A, CHR 0x0A] @ ''const ('' @ [CHR 0x0A]
     @ [CHR 0x09] @ ''StatusActive Status = '' @ [CHR 0x22] @ ''ACTIVE'' @ [CHR 0x22, CHR 0x0A]
     @ [CHR 0x09] @ ''StatusInactive Status = '' @ [CHR 0x22] @ ''INACTIVE'' @ [CHR 0x22, CHR 0x0A]
     @ '')'' @ [CHR 0x0A]"

definition spec_structDecl :: "Node \<Rightarrow> string list \<Rightarrow> string" where
  "spec_structDecl nd idents =
     ''type '' @ Node_Name nd @ '' struct {'' @ [CHR 0x0A]
     @ concat (map (\<lambda>(f, ident). spec_fieldLine ident f) (zip (Node_Fields nd) idents))
     @ ''}'' @ [CHR 0x0A]"

definition enumNodes :: "Node list" where
  "enumNodes =
     [\<lparr>Node_Name = ''Query'', Node_Kind = OBJECT,
       Node_Fields = [fm ''status'' ''Status'' False False,
                      fm ''parent'' ''Query'' False True,
                      fm ''label'' ''string'' False True],
       Node_Children = []\<rparr>,
      \<lparr>Node_Name = ''Status'', Node_Kind = ENUM,
       Node_Fields = [fm ''ACTIVE'' ''Status'' False False,
                      fm ''INACTIVE'' ''Status'' False False],
       Node_Children = []\<rparr>,
      \<lparr>Node_Name = ''Query'', Node_Kind = OBJECT, Node_Fields = [], Node_Children = []\<rparr>]"

text \<open>
  An acyclic schema: \<^verbatim>\<open>A\<close> refers to \<^verbatim>\<open>B\<close>, and \<^verbatim>\<open>B\<close> refers to the leaves \<^verbatim>\<open>C\<close> and
  \<^verbatim>\<open>D\<close>.
\<close>

definition siblingSchema :: "Type list" where
  "siblingSchema =
     [objectType ''A'' [(''b'', TypeRef OBJECT ''B'' None)],
      objectType ''B'' [(''c'', TypeRef OBJECT ''C'' None), (''d'', TypeRef OBJECT ''D'' None)],
      objectType ''C'' [],
      objectType ''D'' []]"

definition siblingLinked :: Nodes where
  "siblingLinked =
     \<lparr>hashMap =
        [(''A'', \<lparr>Node_Name = ''A'', Node_Kind = OBJECT,
                  Node_Fields = [fm ''b'' ''B'' True True], Node_Children = [''B'']\<rparr>),
         (''B'', \<lparr>Node_Name = ''B'', Node_Kind = OBJECT,
                  Node_Fields = [fm ''c'' ''C'' False True, fm ''d'' ''D'' False True],
                  Node_Children = [''C'', ''D'']\<rparr>),
         (''C'', \<lparr>Node_Name = ''C'', Node_Kind = OBJECT, Node_Fields = [], Node_Children = []\<rparr>),
         (''D'', \<lparr>Node_Name = ''D'', Node_Kind = OBJECT, Node_Fields = [], Node_Children = []\<rparr>)],
      sortOrder = [''A'', ''B'', ''C'', ''D'']\<rparr>"

section \<open>Verified properties\<close>

lemmas kind_defs =
  NULL_def NON_NULL_def SCALAR_def OBJECT_def INTERFACE_def UNION_def ENUM_def
  INPUT_OBJECT_def LIST_def

subsection \<open>Type mapper\<close>

text \<open>
  C2, at the input the claim names: a \<^verbatim>\<open>NULL\<close>-kind reference with no wrapped
  reference. The mapper does not return a string there: the \<^verbatim>\<open>NULL\<close> case
  dereferences the nil \<^verbatim>\<open>OfType\<close> pointer, while the \<^verbatim>\<open>NON_NULL\<close> case, given
  the same absent reference, returns normally.
\<close>

theorem gqlTypeToGoType_NULL_nil_panics:
  "gqlTypeToGoType (TypeRef NULL [] None) = Inl NilDereference
   \<and> gqlTypeToGoType (TypeRef NON_NULL [] None) = Inr []"
  by (simp add: kind_defs)

text \<open>
  C3, as the claim states it, fails for \<^verbatim>\<open>NON_NULL\<close>: a \<^verbatim>\<open>NON_NULL\<close> reference
  named \<^verbatim>\<open>Foo\<close> with no wrapped reference is mapped to \<^verbatim>\<open>Foo\<close>, not to the
  "any" representation.
\<close>

theorem gqlTypeToGoType_NON_NULL_nil_counterexample:
  "gqlTypeToGoType (TypeRef NON_NULL ''Foo'' None) = Inr ''Foo''
   \<and> gqlTypeToGoType (TypeRef NON_NULL ''Foo'' None) \<noteq> Inr ''any''"
  by (simp add: kind_defs)

text \<open>
  C3, amended: a \<^verbatim>\<open>LIST\<close> reference with no wrapped reference is mapped to
  \<^verbatim>\<open>[]any\<close>, a \<^verbatim>\<open>NON_NULL\<close> reference with no wrapped reference is mapped to
  its own name, and neither is an error.
\<close>

theorem gqlTypeToGoType_absent_wrapped:
  assumes "TypeRef_Kind ref = LIST \<or> TypeRef_Kind ref = NON_NULL"
    and "TypeRef_OfType ref = None"
  shows "gqlTypeToGoType ref =
           Inr (if TypeRef_Kind ref = LIST then ''[]any'' else TypeRef_Name ref)"
proof (cases ref)
  case (TypeRef kind name ofType)
  with assms have o: "ofType = None" and k: "kind = LIST \<or> kind = NON_NULL"
    by simp_all
  from k show ?thesis
  proof
    assume "kind = LIST"
    with o TypeRef show ?thesis by (simp add: kind_defs)
  next
    assume "kind = NON_NULL"
    with o TypeRef show ?thesis by (simp add: kind_defs)
  qed
qed

theorem gqlTypeToGoType_absent_wrapped_witness:
  "gqlTypeToGoType (TypeRef LIST ''String'' None) = Inr ''[]any''
   \<and> gqlTypeToGoType (TypeRef NON_NULL ''String'' None) = Inr ''String''"
proof -
  have "gqlTypeToGoType (TypeRef LIST ''String'' None) = Inr ''[]any''"
    using gqlTypeToGoType_absent_wrapped [of "TypeRef LIST ''String'' None"]
    by (simp del: gqlTypeToGoType.simps)
  moreover have "gqlTypeToGoType (TypeRef NON_NULL ''String'' None) = Inr ''String''"
    using gqlTypeToGoType_absent_wrapped [of "TypeRef NON_NULL ''String'' None"]
    by (simp add: kind_defs del: gqlTypeToGoType.simps)
  ultimately show ?thesis by simp
qed
text \<open>
  C7: \<^verbatim>\<open>NON_NULL\<close> and \<^verbatim>\<open>NULL\<close> are transparent. Whatever name the wrapper
  carries, the mapper applied to a \<^verbatim>\<open>NON_NULL\<close> or a \<^verbatim>\<open>NULL\<close> reference that
  wraps \<open>ref\<close> gives exactly the result of the mapper applied to \<open>ref\<close>.
\<close>

theorem gqlTypeToGoType_transparent:
  "gqlTypeToGoType (TypeRef NON_NULL name (Some ref)) = gqlTypeToGoType ref
   \<and> gqlTypeToGoType (TypeRef NULL name (Some ref)) = gqlTypeToGoType ref"
  by (simp add: kind_defs)

subsection \<open>Decoding of type kinds\<close>

lemma UnmarshalJSON_cases:
  "UnmarshalJSON unquote kind =
     (case unquote kind of
        None \<Rightarrow> Inl (DecodeError (''unknown type kind: '' @ kind))
      | Some s \<Rightarrow>
          if s = ''NULL'' then Inr NULL
          else if s = ''NON_NULL'' then Inr NON_NULL
          else if s = ''SCALAR'' then Inr SCALAR
          else if s = ''OBJECT'' then Inr OBJECT
          else if s = ''INTERFACE'' then Inr INTERFACE
          else if s = ''UNION'' then Inr UNION
          else if s = ''ENUM'' then Inr ENUM
          else if s = ''INPUT_OBJECT'' then Inr INPUT_OBJECT
          else if s = ''LIST'' then Inr LIST
          else Inl (DecodeError (''unknown type kind: '' @ kind)))"
  by (simp add: UnmarshalJSON_def split: option.split)

text \<open>
  C9: decoding succeeds exactly when the unquoted input is one of the nine
  known literals, each literal gives its own kind, and every failure is the
  decode error whose message names the raw input. The decoder is the only
  function of the schema model that returns an error.
\<close>

theorem UnmarshalJSON_known_kinds:
  "((\<exists>k. UnmarshalJSON unquote kind = Inr k) = (\<exists>s. unquote kind = Some s \<and> s \<in> knownKindLiterals))
   \<and> ((\<exists>e. UnmarshalJSON unquote kind = Inl e)
        = (UnmarshalJSON unquote kind = Inl (DecodeError (''unknown type kind: '' @ kind))))
   \<and> ((UnmarshalJSON unquote kind = Inr NULL) = (unquote kind = Some ''NULL''))
   \<and> ((UnmarshalJSON unquote kind = Inr NON_NULL) = (unquote kind = Some ''NON_NULL''))
   \<and> ((UnmarshalJSON unquote kind = Inr SCALAR) = (unquote kind = Some ''SCALAR''))
   \<and> ((UnmarshalJSON unquote kind = Inr OBJECT) = (unquote kind = Some ''OBJECT''))
   \<and> ((UnmarshalJSON unquote kind = Inr INTERFACE) = (unquote kind = Some ''INTERFACE''))
   \<and> ((UnmarshalJSON unquote kind = Inr UNION) = (unquote kind = Some ''UNION''))
   \<and> ((UnmarshalJSON unquote kind = Inr ENUM) = (unquote kind = Some ''ENUM''))
   \<and> ((UnmarshalJSON unquote kind = Inr INPUT_OBJECT) = (unquote kind = Some ''INPUT_OBJECT''))
   \<and> ((UnmarshalJSON unquote kind = Inr LIST) = (unquote kind = Some ''LIST''))"
proof (cases "unquote kind")
  case None
  then show ?thesis by (simp add: UnmarshalJSON_cases)
next
  case (Some s)
  then show ?thesis
    by (simp add: UnmarshalJSON_cases knownKindLiterals_def kind_defs)
qed

theorem UnmarshalJSON_known_kinds_witness:
  "UnmarshalJSON (\<lambda>b. Some (butlast (tl b))) ([CHR 0x22] @ ''OBJECT'' @ [CHR 0x22]) = Inr OBJECT
   \<and> UnmarshalJSON (\<lambda>b. None) ''null'' = Inl (DecodeError ''unknown type kind: null'')"
proof -
  have "UnmarshalJSON (\<lambda>b. Some (butlast (tl b))) ([CHR 0x22] @ ''OBJECT'' @ [CHR 0x22]) = Inr OBJECT"
    using UnmarshalJSON_known_kinds
            [of "\<lambda>b. Some (butlast (tl b))" "[CHR 0x22] @ ''OBJECT'' @ [CHR 0x22]"]
    by simp
  moreover have "\<not> (\<exists>k. UnmarshalJSON (\<lambda>b. None) ''null'' = Inr k)"
    using UnmarshalJSON_known_kinds [of "\<lambda>b. None" "''null''"] by simp
  then have "\<exists>e. UnmarshalJSON (\<lambda>b. None) ''null'' = Inl e"
    by (cases "UnmarshalJSON (\<lambda>b. None) ''null''") auto
  then have "UnmarshalJSON (\<lambda>b. None) ''null'' = Inl (DecodeError ''unknown type kind: null'')"
    using UnmarshalJSON_known_kinds [of "\<lambda>b. None" "''null''"] by simp
  ultimately show ?thesis by simp
qed

subsection \<open>Termination of the cycle traversal\<close>

lemma hasCycleWith_seen_grows:
  "hasCycleWith hm n n1 seen = Inr (b, seen') \<Longrightarrow> seen \<subseteq> seen'"
  "hasCycleWith_children hm n1 cs seen = Inr (b, seen') \<Longrightarrow> seen \<subseteq> seen'"
proof (induction hm n n1 seen and hm n1 cs seen arbitrary: b seen' and b seen'
       rule: hasCycleWith_hasCycleWith_children.induct)
  case (1 hm n n1 seen)
  from "1.prems" show ?case
    by (subst (asm) hasCycleWith.simps)
       (auto split: option.splits if_splits dest: "1.IH")
next
  case (2 hm n1 seen)
  then show ?case by simp
next
  case (3 hm n1 c cs seen)
  from "3.prems" obtain b1 s1 where
    r: "hasCycleWith hm n1 c seen = Inr (b1, s1)"
    by (auto split: sum.splits)
  have m1: "seen \<subseteq> s1" using "3.IH"(1) [OF r] .
  show ?case
  proof (cases b1)
    case True
    with "3.prems" r m1 show ?thesis by simp
  next
    case False
    with "3.prems" r have "hasCycleWith_children hm n1 cs s1 = Inr (b, seen')" by simp
    with "3.IH"(2) r False have "s1 \<subseteq> seen'" by blast
    with m1 show ?thesis by blast
  qed
qed

lemma finite_nodeNames [simp]: "finite (nodeNames hm)"
  by (simp add: nodeNames_def)

lemma nodeNames_lookup: "map_of hm k = Some nd \<Longrightarrow> Node_Name nd \<in> nodeNames hm"
  by (force simp: nodeNames_def dest: map_of_SomeD)

lemma hasCycleWith_depth_enough:
  "card (nodeNames hm - seen) < d \<Longrightarrow>
     hasCycleWith_depth d hm n n1 seen = Some (hasCycleWith hm n n1 seen)"
  "card (nodeNames hm - seen) < d \<Longrightarrow>
     hasCycleWith_children_depth d hm n1 cs seen = Some (hasCycleWith_children hm n1 cs seen)"
proof (induction hm n n1 seen and hm n1 cs seen arbitrary: d and d
       rule: hasCycleWith_hasCycleWith_children.induct)
  case (1 hm n n1 seen)
  then obtain d' where d: "d = Suc d'" by (cases d) auto
  show ?case
  proof (cases "map_of hm n")
    case None
    then show ?thesis by (simp add: d hasCycleWith.simps)
  next
    case (Some nd)
    note nd = Some
    show ?thesis
    proof (cases "Node_Name nd \<in> seen")
      case True
      with nd show ?thesis by (simp add: d hasCycleWith.simps)
    next
      case False
      note unseen = False
      show ?thesis
      proof (cases "map_of hm n1")
        case None
        with nd unseen show ?thesis by (simp add: d hasCycleWith.simps)
      next
        case (Some nd1)
        show ?thesis
        proof (cases "Node_Kind nd1 \<noteq> OBJECT \<and> Node_Kind nd1 \<noteq> INPUT_OBJECT")
          case True
          with nd unseen Some show ?thesis by (simp add: d hasCycleWith.simps)
        next
          case False
          have "nodeNames hm - insert (Node_Name nd) seen \<subset> nodeNames hm - seen"
            using nodeNames_lookup [OF nd] unseen by auto
          then have "card (nodeNames hm - insert (Node_Name nd) seen) < card (nodeNames hm - seen)"
            by (intro psubset_card_mono) auto
          with "1.prems" d have "card (nodeNames hm - insert (Node_Name nd) seen) < d'" by simp
          from "1.IH" [OF nd unseen Some False this]
          show ?thesis using nd unseen Some False
            by (cases "Node_Kind nd1 = OBJECT") (simp_all add: d hasCycleWith.simps)
        qed
      qed
    qed
  qed
next
  case (2 hm n1 seen)
  then show ?case by simp
next
  case (3 hm n1 c cs seen)
  have first: "hasCycleWith_depth d hm n1 c seen = Some (hasCycleWith hm n1 c seen)"
    using "3.IH"(1) "3.prems" by simp
  show ?case
  proof (cases "hasCycleWith hm n1 c seen")
    case (Inl e)
    with first show ?thesis by simp
  next
    case (Inr r)
    obtain b seen' where r: "r = (b, seen')" by (cases r)
    show ?thesis
    proof (cases b)
      case True
      with first Inr r show ?thesis by simp
    next
      case False
      have "seen \<subseteq> seen'" using hasCycleWith_seen_grows(1) Inr r by blast
      then have "card (nodeNames hm - seen') \<le> card (nodeNames hm - seen)"
        by (intro card_mono) auto
      with "3.prems" have "card (nodeNames hm - seen') < d" by simp
      from "3.IH"(2) [OF Inr r [symmetric] _ this] False
      show ?thesis using first Inr r False by simp
    qed
  qed
qed

text \<open>
  C8: the traversal terminates on every store, and its recursion is no deeper
  than the number of node names not yet in \<open>seen\<close>: with a budget of nested
  calls above that number, the budgeted traversal returns, and returns what
  \<^const>\<open>hasCycleWith\<close> returns. \<^verbatim>\<open>markCycles\<close> starts every traversal with an empty
  \<open>seen\<close>, so one more than the number of distinct node names suffices.
\<close>

theorem hasCycleWith_terminates:
  assumes "card (nodeNames hm - seen) < d"
  shows "hasCycleWith_depth d hm n n1 seen = Some (hasCycleWith hm n n1 seen)"
  using assms by (rule hasCycleWith_depth_enough(1))

lemma selfLoop_depth:
  "hasCycleWith_depth (Suc (Suc 0)) selfLoopStore ''A'' ''A'' {} = Some (Inr (True, {''A''}))"
  by (simp add: selfLoopStore_def mkNode_def kind_defs)

lemma threeCycle_depth:
  "hasCycleWith_depth (Suc (Suc (Suc (Suc 0)))) threeCycleStore ''A'' ''B'' {}
     = Some (Inr (True, {''C'', ''B'', ''A''}))"
  by (simp add: threeCycleStore_def mkNode_def kind_defs)

theorem hasCycleWith_terminates_witness:
  "card (nodeNames selfLoopStore - {}) < Suc (Suc 0)
   \<and> hasCycleWith selfLoopStore ''A'' ''A'' {} = Inr (True, {''A''})
   \<and> card (nodeNames threeCycleStore - {}) < Suc (Suc (Suc (Suc 0)))
   \<and> hasCycleWith threeCycleStore ''A'' ''B'' {} = Inr (True, {''C'', ''B'', ''A''})"
proof -
  have c1: "card (nodeNames selfLoopStore - {}) < Suc (Suc 0)"
    by (simp add: nodeNames_def selfLoopStore_def mkNode_def)
  have c3: "card (nodeNames threeCycleStore - {}) < Suc (Suc (Suc (Suc 0)))"
    by (simp add: nodeNames_def threeCycleStore_def mkNode_def)
  from hasCycleWith_terminates [OF c1, of "''A''" "''A''"] selfLoop_depth
  have r1: "hasCycleWith selfLoopStore ''A'' ''A'' {} = Inr (True, {''A''})" by simp
  from hasCycleWith_terminates [OF c3, of "''A''" "''B''"] threeCycle_depth
  have r3: "hasCycleWith threeCycleStore ''A'' ''B'' {} = Inr (True, {''C'', ''B'', ''A''})" by simp
  from c1 r1 c3 r3 show ?thesis by blast
qed


subsection \<open>The traversal reads the skeleton only\<close>

lemma sameSkel_refl [simp]: "sameSkel hm hm"
  by (simp add: sameSkel_def)

lemma sameSkel_sym: "sameSkel hm hm' \<Longrightarrow> sameSkel hm' hm"
  by (simp add: sameSkel_def)

lemma sameSkel_trans: "sameSkel a b \<Longrightarrow> sameSkel b c \<Longrightarrow> sameSkel a c"
  by (simp add: sameSkel_def)

lemma sameSkel_None: "sameSkel hm hm' \<Longrightarrow> map_of hm k = None \<Longrightarrow> map_of hm' k = None"
  by (metis sameSkel_def option.map_disc_iff)

lemma sameSkel_Some:
  assumes "sameSkel hm hm'" and "map_of hm k = Some nd"
  obtains nd' where "map_of hm' k = Some nd'" and "Node_Name nd' = Node_Name nd"
    and "Node_Kind nd' = Node_Kind nd" and "Node_Children nd' = Node_Children nd"
proof -
  from assms have "map_option skel (map_of hm' k) = Some (skel nd)"
    by (metis sameSkel_def option.simps(9))
  then obtain nd' where "map_of hm' k = Some nd'" and "skel nd' = skel nd" by auto
  then show ?thesis using that by (auto simp: skel_def)
qed

lemma sameSkel_closed:
  assumes ss: "sameSkel hm hm'" and cl: "closedStore hm"
  shows "closedStore hm'"
  unfolding closedStore_def
proof (intro allI impI)
  fix k nd'
  assume a: "map_of hm' k = Some nd'"
  from sameSkel_Some [OF sameSkel_sym [OF ss] a] obtain nd where
    nd: "map_of hm k = Some nd" "Node_Name nd = Node_Name nd'"
        "Node_Children nd = Node_Children nd'" by metis
  from cl nd have nm: "Node_Name nd = k"
    and ch: "\<forall>c \<in> set (Node_Children nd). map_of hm c \<noteq> None"
    by (auto simp: closedStore_def)
  have "\<forall>c \<in> set (Node_Children nd'). map_of hm' c \<noteq> None"
  proof
    fix c assume "c \<in> set (Node_Children nd')"
    with ch nd have "map_of hm c \<noteq> None" by simp
    then obtain x where "map_of hm c = Some x" by auto
    from sameSkel_Some [OF ss this] show "map_of hm' c \<noteq> None" by auto
  qed
  with nm nd show "Node_Name nd' = k \<and> (\<forall>c \<in> set (Node_Children nd'). map_of hm' c \<noteq> None)"
    by simp
qed

lemma hasCycleWith_sameSkel:
  "sameSkel hm hm' \<Longrightarrow> hasCycleWith hm n n1 seen = hasCycleWith hm' n n1 seen"
  "sameSkel hm hm' \<Longrightarrow> hasCycleWith_children hm n1 cs seen = hasCycleWith_children hm' n1 cs seen"
proof (induction hm n n1 seen and hm n1 cs seen
       rule: hasCycleWith_hasCycleWith_children.induct)
  case (1 hm n n1 seen)
  note ss = "1.prems"
  show ?case
  proof (cases "map_of hm n")
    case None
    with sameSkel_None [OF ss None] show ?thesis by (simp add: hasCycleWith.simps)
  next
    case (Some nd)
    from sameSkel_Some [OF ss Some] obtain nd' where
      nd': "map_of hm' n = Some nd'" "Node_Name nd' = Node_Name nd" by metis
    show ?thesis
    proof (cases "Node_Name nd \<in> seen")
      case True
      with Some nd' show ?thesis by (simp add: hasCycleWith.simps [of hm] hasCycleWith.simps [of hm'])
    next
      case False
      note unseen = False
      show ?thesis
      proof (cases "map_of hm n1")
        case None
        with sameSkel_None [OF ss None] Some nd' unseen show ?thesis
          by (simp add: hasCycleWith.simps [of hm] hasCycleWith.simps [of hm'])
      next
        case (Some nd1)
        from sameSkel_Some [OF ss Some] obtain nd1' where
          nd1': "map_of hm' n1 = Some nd1'" "Node_Kind nd1' = Node_Kind nd1"
                "Node_Children nd1' = Node_Children nd1" by metis
        show ?thesis
        proof (cases "Node_Kind nd1 \<noteq> OBJECT \<and> Node_Kind nd1 \<noteq> INPUT_OBJECT")
          case True
          with \<open>map_of hm n = Some nd\<close> nd' unseen Some nd1' show ?thesis
            by (simp add: hasCycleWith.simps [of hm] hasCycleWith.simps [of hm'])
        next
          case False
          from "1.IH" [OF \<open>map_of hm n = Some nd\<close> unseen Some False ss]
          show ?thesis
            using \<open>map_of hm n = Some nd\<close> nd' unseen Some nd1' False
            by (cases "Node_Kind nd1 = OBJECT")
               (simp_all add: hasCycleWith.simps [of hm] hasCycleWith.simps [of hm'])
        qed
      qed
    qed
  qed
next
  case (2 hm n1 seen)
  then show ?case by simp
next
  case (3 hm n1 c cs seen)
  have first: "hasCycleWith hm n1 c seen = hasCycleWith hm' n1 c seen"
    using "3.IH"(1) "3.prems" by simp
  show ?case
  proof (cases "hasCycleWith hm n1 c seen")
    case (Inl e)
    moreover from first Inl have "hasCycleWith hm' n1 c seen = Inl e" by simp
    ultimately show ?thesis by simp
  next
    case (Inr r)
    obtain b s where r: "r = (b, s)" by (cases r)
    from first Inr r have r': "hasCycleWith hm' n1 c seen = Inr (b, s)" by simp
    show ?thesis
    proof (cases b)
      case True
      with r' Inr r show ?thesis by simp
    next
      case False
      from "3.IH"(2) [OF Inr r [symmetric] _ "3.prems"] False
      have "hasCycleWith_children hm n1 cs s = hasCycleWith_children hm' n1 cs s" by simp
      then show ?thesis using r' Inr r False by simp
    qed
  qed
qed

lemma hasCycleWith_total:
  "closedStore hm \<Longrightarrow> map_of hm n \<noteq> None \<Longrightarrow> map_of hm n1 \<noteq> None \<Longrightarrow>
     \<exists>r. hasCycleWith hm n n1 seen = Inr r"
  "closedStore hm \<Longrightarrow> map_of hm n1 \<noteq> None \<Longrightarrow> \<forall>c \<in> set cs. map_of hm c \<noteq> None \<Longrightarrow>
     \<exists>r. hasCycleWith_children hm n1 cs seen = Inr r"
proof (induction hm n n1 seen and hm n1 cs seen
       rule: hasCycleWith_hasCycleWith_children.induct)
  case (1 hm n n1 seen)
  from "1.prems" obtain nd nd1 where nd: "map_of hm n = Some nd" and nd1: "map_of hm n1 = Some nd1"
    by auto
  show ?case
  proof (cases "Node_Name nd \<in> seen \<or> (Node_Kind nd1 \<noteq> OBJECT \<and> Node_Kind nd1 \<noteq> INPUT_OBJECT)")
    case True
    with nd nd1 show ?thesis by (auto simp: hasCycleWith.simps)
  next
    case False
    then have unseen: "Node_Name nd \<notin> seen"
      and obj: "\<not> (Node_Kind nd1 \<noteq> OBJECT \<and> Node_Kind nd1 \<noteq> INPUT_OBJECT)" by auto
    have kids: "\<forall>c \<in> set (Node_Children nd1). map_of hm c \<noteq> None"
      using "1.prems"(1) nd1 by (auto simp: closedStore_def)
    from "1.IH" [OF nd unseen nd1 obj "1.prems"(1) "1.prems"(3) kids]
    show ?thesis using nd nd1 unseen obj
      by (cases "Node_Kind nd1 = OBJECT") (auto simp: hasCycleWith.simps)
  qed
next
  case (2 hm n1 seen)
  show ?case by auto
next
  case (3 hm n1 c cs seen)
  from "3.prems"(3) have c: "map_of hm c \<noteq> None" and cs: "\<forall>c \<in> set cs. map_of hm c \<noteq> None"
    by simp_all
  from "3.IH"(1) [OF "3.prems"(1) "3.prems"(2) c]
  obtain r where r0: "hasCycleWith hm n1 c seen = Inr r" by blast
  obtain b s where r: "hasCycleWith hm n1 c seen = Inr (b, s)" using r0 by (cases r) simp
  show ?case
  proof (cases b)
    case True
    with r show ?thesis by auto
  next
    case False
    from "3.IH"(2) [OF r refl False "3.prems"(1) "3.prems"(2) cs]
    show ?thesis using r False by auto
  qed
qed

subsection \<open>What Link does to a collected graph\<close>

lemma setFlags_empty [simp]: "setFlags {} fs = fs"
  by (simp add: setFlags_def)

lemma setFlags_flagFields: "setFlags S (flagFields c fs) = setFlags (insert c S) fs"
  by (simp add: setFlags_def flagFields_def)

lemma map_fst_map_entry [simp]: "map fst (AList.map_entry k f xs) = map fst xs"
  by (induction xs) auto

lemma map_of_map_entry_Some:
  "map_of hm n = Some nd \<Longrightarrow> map_of (AList.map_entry n f hm) = (map_of hm)(n \<mapsto> f nd)"
  by (simp add: map_of_map_entry)

lemma sameSkel_upd:
  assumes "map_of hm n = Some nd" and "map_of hm' = (map_of hm)(n \<mapsto> nd')" and "skel nd' = skel nd"
  shows "sameSkel hm hm'"
  using assms by (simp add: sameSkel_def)

lemma cyclicChildren_sameSkel:
  "sameSkel hm hm' \<Longrightarrow> cyclicChildren hm n cs = cyclicChildren hm' n cs"
  by (simp add: cyclicChildren_def hasCycleWith_sameSkel(1) [of hm hm'])

lemma cyclicChildren_Cons:
  "cyclicChildren hm n (c # cs) =
     (if (\<exists>s. hasCycleWith hm n c {} = Inr (True, s)) then insert c (cyclicChildren hm n cs)
      else cyclicChildren hm n cs)"
  by (auto simp: cyclicChildren_def)

lemma markCycles_children_char:
  assumes "closedStore hm" and "map_of hm n = Some nd" and "\<forall>c \<in> set cs. map_of hm c \<noteq> None"
  shows "\<exists>hm'. markCycles_children hm n cs = Inr hm' \<and> map fst hm' = map fst hm
           \<and> map_of hm' = (map_of hm)(n \<mapsto> nd\<lparr>Node_Fields := setFlags (cyclicChildren hm n cs) (Node_Fields nd)\<rparr>)"
  using assms
proof (induction cs arbitrary: hm nd)
  case Nil
  have "(map_of hm)(n \<mapsto> nd) = map_of hm" using Nil.prems(2) by (simp add: map_upd_triv)
  then show ?case by (simp add: cyclicChildren_def)
next
  case (Cons c cs)
  note cl = Cons.prems(1) and nd = Cons.prems(2)
  from Cons.prems(3) have c: "map_of hm c \<noteq> None" and cs: "\<forall>c \<in> set cs. map_of hm c \<noteq> None"
    by simp_all
  from hasCycleWith_total(1) [OF cl _ c, of n "{}"] nd
  obtain r where "hasCycleWith hm n c {} = Inr r" by auto
  then obtain b s where r: "hasCycleWith hm n c {} = Inr (b, s)" by (cases r) simp
  show ?case
  proof (cases b)
    case False
    from Cons.IH [OF cl nd cs] obtain hm' where
      h: "markCycles_children hm n cs = Inr hm'" "map fst hm' = map fst hm"
         "map_of hm' = (map_of hm)(n \<mapsto> nd\<lparr>Node_Fields := setFlags (cyclicChildren hm n cs) (Node_Fields nd)\<rparr>)"
      by blast
    have cc: "cyclicChildren hm n (c # cs) = cyclicChildren hm n cs"
      using r False by (simp add: cyclicChildren_Cons)
    have run: "markCycles_children hm n (c # cs) = Inr hm'"
      using r False h(1) by simp
    from h(3) have
      "map_of hm' = (map_of hm)(n \<mapsto> nd\<lparr>Node_Fields := setFlags (cyclicChildren hm n (c # cs)) (Node_Fields nd)\<rparr>)"
      by (simp only: cc)
    with run h(2) show ?thesis by blast
  next
    case True
    from c obtain cn where cn: "map_of hm c = Some cn" by auto
    with cl have cname: "Node_Name cn = c" by (simp add: closedStore_def)
    define nd1 where "nd1 = nd\<lparr>Node_Fields := flagFields c (Node_Fields nd)\<rparr>"
    define hm1 where
      "hm1 = AList.map_entry n (\<lambda>nd. nd\<lparr>Node_Fields := flagFields (Node_Name cn) (Node_Fields nd)\<rparr>) hm"
    have m1: "map_of hm1 = (map_of hm)(n \<mapsto> nd1)"
      unfolding hm1_def nd1_def using nd cname by (simp add: map_of_map_entry_Some)
    have ss: "sameSkel hm hm1"
      by (rule sameSkel_upd [OF nd m1]) (simp add: nd1_def skel_def)
    have cl1: "closedStore hm1" by (rule sameSkel_closed [OF ss cl])
    have n1: "map_of hm1 n = Some nd1" by (simp add: m1)
    have cs1: "\<forall>c \<in> set cs. map_of hm1 c \<noteq> None" using cs by (simp add: m1)
    from Cons.IH [OF cl1 n1 cs1] obtain hm' where
      h: "markCycles_children hm1 n cs = Inr hm'" "map fst hm' = map fst hm1"
         "map_of hm' = (map_of hm1)(n \<mapsto> nd1\<lparr>Node_Fields := setFlags (cyclicChildren hm1 n cs) (Node_Fields nd1)\<rparr>)"
      by blast
    have cc: "cyclicChildren hm n (c # cs) = insert c (cyclicChildren hm1 n cs)"
      using r True cyclicChildren_sameSkel [OF ss] by (simp add: cyclicChildren_Cons)
    have run: "markCycles_children hm n (c # cs) = Inr hm'"
      using r True cn h(1) by (simp add: hm1_def)
    have keys: "map fst hm' = map fst hm" using h(2) by (simp add: hm1_def)
    have "nd1\<lparr>Node_Fields := setFlags (cyclicChildren hm1 n cs) (Node_Fields nd1)\<rparr>
            = nd\<lparr>Node_Fields := setFlags (cyclicChildren hm n (c # cs)) (Node_Fields nd)\<rparr>"
      by (simp add: nd1_def cc setFlags_flagFields)
    with h(3) m1 have
      "map_of hm' = (map_of hm)(n \<mapsto> nd\<lparr>Node_Fields := setFlags (cyclicChildren hm n (c # cs)) (Node_Fields nd)\<rparr>)"
      by simp
    with run keys show ?thesis by blast
  qed
qed

lemma markedNode_sameSkel: "sameSkel hm hm' \<Longrightarrow> markedNode hm k nd = markedNode hm' k nd"
  by (simp add: markedNode_def cyclicChildren_sameSkel [of hm hm'])

lemma skel_markedNode [simp]: "skel (markedNode hm k nd) = skel nd"
  by (simp add: markedNode_def skel_def)

lemma markCycles_char:
  assumes cl: "closedStore hm" and nd: "map_of hm k = Some nd"
  shows "\<exists>hm'. markCycles hm k = Inr hm' \<and> map fst hm' = map fst hm
           \<and> map_of hm' = (map_of hm)(k \<mapsto> markedNode hm k nd)"
proof -
  have "\<forall>c \<in> set (Node_Children nd). map_of hm c \<noteq> None"
    using cl nd by (auto simp: closedStore_def)
  from markCycles_children_char [OF cl nd this] nd show ?thesis
    by (simp add: markCycles_def markedNode_def)
qed

lemma markAll_char:
  assumes "closedStore hm" and "distinct ks" and "\<forall>k \<in> set ks. map_of hm k \<noteq> None"
  shows "\<exists>hm'. markAll ks hm = Inr hm' \<and> map fst hm' = map fst hm
           \<and> (\<forall>k. map_of hm' k =
                  (if k \<in> set ks then map_option (markedNode hm k) (map_of hm k) else map_of hm k))"
  using assms
proof (induction ks arbitrary: hm)
  case Nil
  then show ?case by simp
next
  case (Cons k ks)
  note cl = Cons.prems(1)
  from Cons.prems(2) have dist: "distinct ks" and knew: "k \<notin> set ks" by simp_all
  from Cons.prems(3) obtain nd where nd: "map_of hm k = Some nd" by auto
  from Cons.prems(3) have ks: "\<forall>k \<in> set ks. map_of hm k \<noteq> None" by simp
  from markCycles_char [OF cl nd] obtain hm1 where
    h1: "markCycles hm k = Inr hm1" "map fst hm1 = map fst hm"
        "map_of hm1 = (map_of hm)(k \<mapsto> markedNode hm k nd)" by blast
  have ss: "sameSkel hm hm1" by (rule sameSkel_upd [OF nd h1(3)]) simp
  have cl1: "closedStore hm1" by (rule sameSkel_closed [OF ss cl])
  have ks1: "\<forall>k \<in> set ks. map_of hm1 k \<noteq> None" using ks by (simp add: h1(3))
  from Cons.IH [OF cl1 dist ks1] obtain hm' where
    h: "markAll ks hm1 = Inr hm'" "map fst hm' = map fst hm1"
       "\<forall>k'. map_of hm' k' =
          (if k' \<in> set ks then map_option (markedNode hm1 k') (map_of hm1 k') else map_of hm1 k')"
    by blast
  have run: "markAll (k # ks) hm = Inr hm'" using h1(1) h(1) by simp
  have keys: "map fst hm' = map fst hm" using h(2) h1(2) by simp
  have "map_of hm' k' =
          (if k' \<in> set (k # ks) then map_option (markedNode hm k') (map_of hm k') else map_of hm k')"
    for k'
  proof (cases "k' = k")
    case True
    with knew h(3) h1(3) nd show ?thesis by simp
  next
    case False
    have mm: "markedNode hm1 k' = markedNode hm k'"
      using markedNode_sameSkel [OF ss, of k'] by (intro ext) simp
    from h(3) have "map_of hm' k' =
        (if k' \<in> set ks then map_option (markedNode hm1 k') (map_of hm1 k') else map_of hm1 k')"
      by blast
    with False h1(3) mm show ?thesis by simp
  qed
  with run keys show ?case by blast
qed

lemma linkFields_subset:
  "set (linkFields hm fs seen ch) \<subseteq> set ch \<union> {t. map_of hm t \<noteq> None}"
proof (induction fs arbitrary: seen ch)
  case Nil
  show ?case by simp
next
  case (Cons f fs)
  show ?case
  proof (cases "map_of hm (FieldMeta_Type f) = None")
    case True
    with Cons.IH [of seen ch] show ?thesis by simp
  next
    case False
    note reg = False
    show ?thesis
    proof (cases "FieldMeta_Type f \<in> seen")
      case True
      with reg Cons.IH [of "insert (FieldMeta_Type f) seen" ch] show ?thesis by auto
    next
      case False
      with reg Cons.IH [of "insert (FieldMeta_Type f) seen" "ch @ [FieldMeta_Type f]"]
      show ?thesis by auto
    qed
  qed
qed

lemma map_of_linkChildren: "map_of (linkChildren hm) k = map_option (linkNode hm) (map_of hm k)"
  by (simp add: linkChildren_def map_of_map)

lemma map_fst_linkChildren [simp]: "map fst (linkChildren hm) = map fst hm"
  by (simp add: linkChildren_def case_prod_unfold comp_def)

lemma closedStore_linkChildren:
  assumes "graphInv n"
  shows "closedStore (linkChildren (hashMap n))"
  unfolding closedStore_def
proof (intro allI impI)
  fix k nd'
  assume "map_of (linkChildren (hashMap n)) k = Some nd'"
  then obtain nd where nd: "map_of (hashMap n) k = Some nd" and nd': "nd' = linkNode (hashMap n) nd"
    by (auto simp: map_of_linkChildren)
  from assms nd have nm: "Node_Name nd = k" and fr: "freshNode nd" by (auto simp: graphInv_def)
  have "set (Node_Children nd') \<subseteq> {t. map_of (hashMap n) t \<noteq> None}"
    using linkFields_subset [of "hashMap n" "Node_Fields nd" "{}" "[]"] fr
    by (simp add: nd' linkNode_def freshNode_def)
  then have "\<forall>c \<in> set (Node_Children nd'). map_of (linkChildren (hashMap n)) c \<noteq> None"
    by (auto simp: map_of_linkChildren)
  with nm show "Node_Name nd' = k \<and> (\<forall>c \<in> set (Node_Children nd'). map_of (linkChildren (hashMap n)) c \<noteq> None)"
    by (simp add: nd' linkNode_def)
qed

lemma Link_char:
  assumes inv: "graphInv n"
  shows "\<exists>hm'. Link n = Inr (n\<lparr>hashMap := hm'\<rparr>) \<and> map fst hm' = map fst (hashMap n)
           \<and> (\<forall>k. map_of hm' k =
                  map_option (\<lambda>nd. markedNode (linkChildren (hashMap n)) k (linkNode (hashMap n) nd))
                    (map_of (hashMap n) k))
           \<and> sameSkel (linkChildren (hashMap n)) hm'"
proof -
  let ?L = "linkChildren (hashMap n)"
  have cl: "closedStore ?L" by (rule closedStore_linkChildren [OF inv])
  have dist: "distinct (sortOrder n)" using inv by (simp add: graphInv_def)
  have dom: "set (sortOrder n) = dom (map_of (hashMap n))" using inv by (simp add: graphInv_def)
  have all: "\<forall>k \<in> set (sortOrder n). map_of ?L k \<noteq> None"
    using dom by (auto simp: map_of_linkChildren)
  from markAll_char [OF cl dist all] obtain hm' where
    h: "markAll (sortOrder n) ?L = Inr hm'" "map fst hm' = map fst ?L"
       "\<forall>k. map_of hm' k =
          (if k \<in> set (sortOrder n) then map_option (markedNode ?L k) (map_of ?L k) else map_of ?L k)"
    by blast
  have m: "map_of hm' k =
             map_option (\<lambda>nd. markedNode ?L k (linkNode (hashMap n) nd)) (map_of (hashMap n) k)" for k
  proof (cases "map_of (hashMap n) k")
    case None
    with h(3) dom show ?thesis by (auto simp: map_of_linkChildren)
  next
    case (Some nd)
    then have "k \<in> set (sortOrder n)" using dom by auto
    with h(3) Some show ?thesis by (simp add: map_of_linkChildren)
  qed
  have ss: "sameSkel ?L hm'"
    unfolding sameSkel_def
  proof
    fix k
    show "map_option skel (map_of ?L k) = map_option skel (map_of hm' k)"
      by (cases "map_of (hashMap n) k") (simp_all add: m map_of_linkChildren)
  qed
  from h(1) have "Link n = Inr (n\<lparr>hashMap := hm'\<rparr>)" by (simp add: Link_def)
  with h(2) m ss show ?thesis by auto
qed

lemma fieldMetas_fresh:
  "fieldMetas fs acc = Inr r \<Longrightarrow> \<forall>f \<in> set acc. freshField f \<Longrightarrow> \<forall>f \<in> set r. freshField f"
proof (induction fs arbitrary: acc)
  case Nil
  then show ?case by simp
next
  case (Cons a fs)
  from Cons.prems(1) obtain ty where ty: "gqlTypeToGoType (Field_Type a) = Inr ty"
    by (cases "gqlTypeToGoType (Field_Type a)") simp_all
  let ?m = "\<lparr>FieldMeta_Name = Field_Name a, FieldMeta_Type = ty, JSONTag = Field_Name a,
              hasCycle = False,
              isNullable = (TypeRef_Kind (Field_Type a) = NULL \<or> TypeRef_OfType (Field_Type a) = None)\<rparr>"
  from Cons.prems(1) ty have run: "fieldMetas fs (acc @ [?m]) = Inr r" by simp
  have "\<forall>f \<in> set (acc @ [?m]). freshField f" using Cons.prems(2) by (simp add: freshField_def)
  from Cons.IH [OF run this] show ?case .
qed

lemma inputFieldMetas_fresh:
  "inputFieldMetas fs acc = Inr r \<Longrightarrow> \<forall>f \<in> set acc. freshField f \<Longrightarrow> \<forall>f \<in> set r. freshField f"
proof (induction fs arbitrary: acc)
  case Nil
  then show ?case by simp
next
  case (Cons a fs)
  from Cons.prems(1) obtain ty where ty: "gqlTypeToGoType (InputField_Type a) = Inr ty"
    by (cases "gqlTypeToGoType (InputField_Type a)") simp_all
  let ?m = "\<lparr>FieldMeta_Name = InputField_Name a, FieldMeta_Type = ty,
              JSONTag = InputField_Name a, hasCycle = False,
              isNullable = (TypeRef_Kind (InputField_Type a) = NULL
                            \<or> TypeRef_OfType (InputField_Type a) = None)\<rparr>"
  from Cons.prems(1) ty have run: "inputFieldMetas fs (acc @ [?m]) = Inr r" by simp
  have "\<forall>f \<in> set (acc @ [?m]). freshField f" using Cons.prems(2) by (simp add: freshField_def)
  from Cons.IH [OF run this] show ?case .
qed

lemma enumMetas_fresh:
  "\<forall>f \<in> set acc. freshField f \<and> FieldMeta_Type f = name \<Longrightarrow>
     \<forall>f \<in> set (enumMetas name vs acc). freshField f \<and> FieldMeta_Type f = name"
proof (induction vs arbitrary: acc)
  case Nil
  then show ?case by simp
next
  case (Cons v vs)
  let ?m = "\<lparr>FieldMeta_Name = EnumValue_Name v, FieldMeta_Type = name,
              JSONTag = EnumValue_Name v, hasCycle = False, isNullable = False\<rparr>"
  have "\<forall>f \<in> set (acc @ [?m]). freshField f \<and> FieldMeta_Type f = name"
    using Cons.prems by (simp add: freshField_def)
  from Cons.IH [OF this] show ?case by simp
qed

lemma freshNode_iff:
  "freshNode nd =
     (Node_Children nd = [] \<and> (\<forall>f \<in> set (Node_Fields nd). freshField f)
      \<and> (Node_Kind nd = ENUM \<longrightarrow> (\<forall>f \<in> set (Node_Fields nd). FieldMeta_Type f = Node_Name nd)))"
  by (simp add: freshNode_def freshField_def)

lemma NewNode_fresh:
  assumes "NewNode t = Inr nd"
  shows "freshNode nd"
proof -
  let ?node = "\<lparr>Node_Name = Type_Name t, Node_Kind = Type_Kind t, Node_Fields = [], Node_Children = []\<rparr>"
  consider (obj) "Type_Kind t = OBJECT \<or> Type_Kind t = INTERFACE \<or> Type_Kind t = UNION"
    | (inp) "Type_Kind t = INPUT_OBJECT"
    | (enum) "Type_Kind t = ENUM"
    | (other) "Type_Kind t \<noteq> OBJECT" "Type_Kind t \<noteq> INTERFACE" "Type_Kind t \<noteq> UNION"
              "Type_Kind t \<noteq> INPUT_OBJECT" "Type_Kind t \<noteq> ENUM"
    by blast
  then show ?thesis
  proof cases
    case obj
    then have ne: "Type_Kind t \<noteq> ENUM" by (auto simp: kind_defs)
    from assms obj obtain fs where fs: "fieldMetas (Type_Fields t) [] = Inr fs"
      and nd: "nd = ?node\<lparr>Node_Fields := fs\<rparr>"
      by (cases "fieldMetas (Type_Fields t) []") (auto simp: NewNode_def)
    from fieldMetas_fresh [OF fs] have "\<forall>f \<in> set fs. freshField f" by simp
    with nd ne show ?thesis by (simp add: freshNode_iff)
  next
    case inp
    then have ne: "Type_Kind t \<noteq> ENUM" and no: "\<not> (Type_Kind t = OBJECT \<or> Type_Kind t = INTERFACE \<or> Type_Kind t = UNION)"
      by (auto simp: kind_defs)
    from assms inp no obtain fs where fs: "inputFieldMetas (Type_InputFields t) [] = Inr fs"
      and nd: "nd = ?node\<lparr>Node_Fields := fs\<rparr>"
      by (cases "inputFieldMetas (Type_InputFields t) []") (auto simp: NewNode_def)
    from inputFieldMetas_fresh [OF fs] have "\<forall>f \<in> set fs. freshField f" by simp
    with nd ne show ?thesis by (simp add: freshNode_iff)
  next
    case enum
    then have no: "\<not> (Type_Kind t = OBJECT \<or> Type_Kind t = INTERFACE \<or> Type_Kind t = UNION)"
      "Type_Kind t \<noteq> INPUT_OBJECT"
      by (auto simp: kind_defs)
    from assms enum no have nd: "nd = ?node\<lparr>Node_Fields := enumMetas (Type_Name t) (Type_EnumValues t) []\<rparr>"
      by (simp add: NewNode_def)
    have "\<forall>f \<in> set (enumMetas (Type_Name t) (Type_EnumValues t) []).
            freshField f \<and> FieldMeta_Type f = Type_Name t"
      by (rule enumMetas_fresh) simp
    with nd show ?thesis by (simp add: freshNode_iff)
  next
    case other
    with assms have "nd = ?node" by (simp add: NewNode_def)
    then show ?thesis by (simp add: freshNode_iff)
  qed
qed

lemma graphInv_NewNodes: "graphInv NewNodes"
  by (simp add: graphInv_def NewNodes_def)

lemma graphInv_Collect:
  assumes "graphInv n" and "freshNode nd"
  shows "graphInv (Collect_node nd n)"
proof (cases "map_of (hashMap n) (Node_Name nd) = None")
  case False
  then have "Collect_node nd n = n" by (auto simp: Collect_node_def)
  with assms show ?thesis by simp
next
  case True
  then have "Node_Name nd \<notin> set (sortOrder n)" using assms(1) by (auto simp: graphInv_def)
  with assms True show ?thesis
    by (auto simp: graphInv_def Collect_node_def update_conv')
qed

lemma graphInv_collectTypes:
  "collectTypes ts n = Inr n' \<Longrightarrow> graphInv n \<Longrightarrow> graphInv n'"
proof (induction ts arbitrary: n)
  case Nil
  then show ?case by simp
next
  case (Cons t ts)
  from Cons.prems(1) obtain nd where nd: "NewNode t = Inr nd"
    by (cases "NewNode t") simp_all
  with Cons.prems(1) have run: "collectTypes ts (Collect_node nd n) = Inr n'" by simp
  from Cons.IH [OF run graphInv_Collect [OF Cons.prems(2) NewNode_fresh [OF nd]]] show ?case .
qed

lemma frameOf_markedNode [simp]: "frameOf (markedNode hm k nd) = frameOf nd"
  by (simp add: frameOf_def markedNode_def setFlags_def comp_def)

lemma frameOf_linkNode [simp]: "frameOf (linkNode hm nd) = frameOf nd"
  by (simp add: frameOf_def linkNode_def)

lemma Node_Children_markedNode [simp]: "Node_Children (markedNode hm k nd) = Node_Children nd"
  by (simp add: markedNode_def)

text \<open>
  C4: for every graph collected from nodes built by \<^verbatim>\<open>NewNode\<close>, \<^verbatim>\<open>Link\<close> returns,
  and it neither adds, removes nor reorders nodes (same keys, same
  \<^verbatim>\<open>sortOrder\<close>, whose names are distinct, so that every node is marked once).
  Of every node the name, the kind and, field by field, the field name, the
  mapped type, the tag and the nullability are what they were before \<^verbatim>\<open>Link\<close>;
  no \<^verbatim>\<open>hasCycle\<close> flag is set before \<^verbatim>\<open>Link\<close>. The child links are those that
  the edge-building loop of \<^verbatim>\<open>Link\<close> creates: the marking pass leaves them as
  they are.
\<close>

theorem Link_changes_only_hasCycle:
  assumes "collectTypes ts NewNodes = Inr n0"
  shows "\<exists>n. Link n0 = Inr n
           \<and> sortOrder n = sortOrder n0 \<and> distinct (sortOrder n0)
           \<and> map fst (hashMap n) = map fst (hashMap n0)
           \<and> (\<forall>k. map_option frameOf (map_of (hashMap n) k) = map_option frameOf (map_of (hashMap n0) k))
           \<and> (\<forall>k. map_option Node_Children (map_of (hashMap n) k)
                    = map_option Node_Children (map_of (linkChildren (hashMap n0)) k))
           \<and> (\<forall>k nd0. map_of (hashMap n0) k = Some nd0 \<longrightarrow> (\<forall>f \<in> set (Node_Fields nd0). \<not> hasCycle f))"
proof -
  have inv: "graphInv n0" by (rule graphInv_collectTypes [OF assms graphInv_NewNodes])
  from Link_char [OF inv] obtain hm' where
    h: "Link n0 = Inr (n0\<lparr>hashMap := hm'\<rparr>)" "map fst hm' = map fst (hashMap n0)"
       "\<forall>k. map_of hm' k =
          map_option (\<lambda>nd. markedNode (linkChildren (hashMap n0)) k (linkNode (hashMap n0) nd))
            (map_of (hashMap n0) k)"
    by blast
  have fr: "map_option frameOf (map_of hm' k) = map_option frameOf (map_of (hashMap n0) k)" for k
    by (cases "map_of (hashMap n0) k") (simp_all add: h(3))
  have ch: "map_option Node_Children (map_of hm' k)
              = map_option Node_Children (map_of (linkChildren (hashMap n0)) k)" for k
    by (cases "map_of (hashMap n0) k") (simp_all add: h(3) map_of_linkChildren)
  have fl: "\<forall>k nd0. map_of (hashMap n0) k = Some nd0 \<longrightarrow> (\<forall>f \<in> set (Node_Fields nd0). \<not> hasCycle f)"
    using inv by (auto simp: graphInv_def freshNode_def)
  have d: "distinct (sortOrder n0)" using inv by (simp add: graphInv_def)
  show ?thesis
    by (rule exI [of _ "n0\<lparr>hashMap := hm'\<rparr>"]) (use h(1) h(2) fr ch fl d in simp)
qed

lemma hasCycleWith_False_unfold:
  assumes "hasCycleWith hm n n1 seen = Inr (False, seen')"
    and "map_of hm n1 = Some nd1" and "Node_Kind nd1 = OBJECT \<or> Node_Kind nd1 = INPUT_OBJECT"
  obtains nd where "map_of hm n = Some nd" and "Node_Name nd \<notin> seen"
    and "hasCycleWith_children hm n1 (Node_Children nd1) (insert (Node_Name nd) seen) = Inr (False, seen')"
proof (cases "map_of hm n")
  case None
  with assms(1) show ?thesis by (simp add: hasCycleWith.simps)
next
  case (Some nd)
  from assms Some have "Node_Name nd \<notin> seen"
    by (auto simp: hasCycleWith.simps split: if_splits)
  moreover from assms Some this
  have "hasCycleWith_children hm n1 (Node_Children nd1) (insert (Node_Name nd) seen) = Inr (False, seen')"
    by (auto simp: hasCycleWith.simps split: if_splits)
  ultimately show ?thesis using Some that by blast
qed

lemma hasCycleWith_False_unseen:
  assumes "hasCycleWith hm n n1 seen = Inr (False, seen')" and "map_of hm n = Some nd"
  shows "Node_Name nd \<notin> seen"
  using assms by (auto simp: hasCycleWith.simps split: if_splits)

lemma objectEdges_step:
  assumes "(a, x) \<in> (spec_objectEdges hm)\<^sup>*" and "map_of hm a = Some nd"
  shows "x = a \<or> (\<exists>c \<in> set (Node_Children nd). spec_isObject hm c \<and> (c, x) \<in> (spec_objectEdges hm)\<^sup>*)"
  using assms(1)
proof (cases rule: converse_rtranclE)
  case base
  then show ?thesis by simp
next
  case (step c)
  from step(1) assms(2) have "c \<in> set (Node_Children nd)" "spec_isObject hm c"
    by (auto simp: spec_objectEdges_def)
  with step(2) show ?thesis by blast
qed

lemma objectEdges_cycle_step:
  assumes "(a, a) \<in> (spec_objectEdges hm)\<^sup>+" and "map_of hm a = Some nd"
  shows "\<exists>c \<in> set (Node_Children nd). spec_isObject hm c \<and> (c, a) \<in> (spec_objectEdges hm)\<^sup>*"
proof -
  from tranclD [OF assms(1)] obtain c where
    e: "(a, c) \<in> spec_objectEdges hm" and r: "(c, a) \<in> (spec_objectEdges hm)\<^sup>*" by blast
  from e assms(2) have "c \<in> set (Node_Children nd)" "spec_isObject hm c"
    by (auto simp: spec_objectEdges_def)
  with r show ?thesis by blast
qed

lemma hasCycleWith_False_acyclic:
  "closedStore hm \<Longrightarrow> hasCycleWith hm n n1 seen = Inr (False, seen') \<Longrightarrow> spec_isObject hm n1 \<Longrightarrow>
     (n1, x) \<in> (spec_objectEdges hm)\<^sup>* \<Longrightarrow>
     (hasKids hm x \<longrightarrow> x \<notin> insert n seen) \<and> (x, x) \<notin> (spec_objectEdges hm)\<^sup>+"
  "closedStore hm \<Longrightarrow> hasCycleWith_children hm n1 cs seen = Inr (False, seen') \<Longrightarrow>
     map_of hm n1 \<noteq> None \<Longrightarrow>
     (cs \<noteq> [] \<longrightarrow> n1 \<notin> seen)
     \<and> (\<forall>c \<in> set cs. spec_isObject hm c \<longrightarrow>
            (\<forall>x. (c, x) \<in> (spec_objectEdges hm)\<^sup>* \<longrightarrow>
                 (hasKids hm x \<longrightarrow> x \<notin> insert n1 seen) \<and> (x, x) \<notin> (spec_objectEdges hm)\<^sup>+))"
proof (induction hm n n1 seen and hm n1 cs seen arbitrary: seen' x and seen'
       rule: hasCycleWith_hasCycleWith_children.induct)
  case (1 hm n n1 seen)
  note cl = "1.prems"(1)
  from "1.prems"(3) obtain nd1 where nd1: "map_of hm n1 = Some nd1"
    and obj: "Node_Kind nd1 = OBJECT \<or> Node_Kind nd1 = INPUT_OBJECT"
    by (auto simp: spec_isObject_def)
  from hasCycleWith_False_unfold [OF "1.prems"(2) nd1 obj] obtain nd where
    nd: "map_of hm n = Some nd" and unseen: "Node_Name nd \<notin> seen"
    and loop: "hasCycleWith_children hm n1 (Node_Children nd1) (insert (Node_Name nd) seen) = Inr (False, seen')"
    by blast
  from cl nd have nm: "Node_Name nd = n" by (simp add: closedStore_def)
  from obj have obj': "\<not> (Node_Kind nd1 \<noteq> OBJECT \<and> Node_Kind nd1 \<noteq> INPUT_OBJECT)" by blast
  have n1reg: "map_of hm n1 \<noteq> None" using nd1 by simp
  from "1.IH" [OF nd unseen nd1 obj' cl loop n1reg]
  have a: "Node_Children nd1 \<noteq> [] \<longrightarrow> n1 \<notin> insert n seen"
    and b: "\<forall>c \<in> set (Node_Children nd1). spec_isObject hm c \<longrightarrow>
              (\<forall>x. (c, x) \<in> (spec_objectEdges hm)\<^sup>* \<longrightarrow>
                   (hasKids hm x \<longrightarrow> x \<notin> insert n1 (insert n seen))
                   \<and> (x, x) \<notin> (spec_objectEdges hm)\<^sup>+)"
    by (simp_all add: nm)
  from objectEdges_step [OF "1.prems"(4) nd1] show ?case
  proof
    assume x: "x = n1"
    have kids: "hasKids hm x \<longrightarrow> x \<notin> insert n seen"
      using a x nd1 by (auto simp: hasKids_def)
    have "(n1, n1) \<notin> (spec_objectEdges hm)\<^sup>+"
    proof
      assume "(n1, n1) \<in> (spec_objectEdges hm)\<^sup>+"
      from objectEdges_cycle_step [OF this nd1] obtain c where
        c: "c \<in> set (Node_Children nd1)" "spec_isObject hm c" "(c, n1) \<in> (spec_objectEdges hm)\<^sup>*"
        by blast
      from c(1) nd1 have "hasKids hm n1" by (auto simp: hasKids_def)
      with b c show False by blast
    qed
    with kids x show ?thesis by simp
  next
    assume "\<exists>c \<in> set (Node_Children nd1). spec_isObject hm c \<and> (c, x) \<in> (spec_objectEdges hm)\<^sup>*"
    with b show ?thesis by blast
  qed
next
  case (2 hm n1 seen)
  show ?case by simp
next
  case (3 hm n1 c cs seen)
  note cl = "3.prems"(1)
  from "3.prems"(3) obtain nd1 where nd1: "map_of hm n1 = Some nd1" by auto
  from cl nd1 have nm1: "Node_Name nd1 = n1" by (simp add: closedStore_def)
  from "3.prems"(2) obtain b1 s1 where r: "hasCycleWith hm n1 c seen = Inr (b1, s1)"
    by (auto split: sum.splits)
  from "3.prems"(2) r have b1: "\<not> b1" by (auto split: if_splits)
  from "3.prems"(2) r b1 have loop: "hasCycleWith_children hm n1 cs s1 = Inr (False, seen')" by simp
  from r b1 have r': "hasCycleWith hm n1 c seen = Inr (False, s1)" by simp
  have unseen: "n1 \<notin> seen" using hasCycleWith_False_unseen [OF r' nd1] nm1 by simp
  have grow: "seen \<subseteq> s1" using hasCycleWith_seen_grows(1) [OF r] .
  have first: "spec_isObject hm c \<longrightarrow>
                 (\<forall>x. (c, x) \<in> (spec_objectEdges hm)\<^sup>* \<longrightarrow>
                      (hasKids hm x \<longrightarrow> x \<notin> insert n1 seen)
                      \<and> (x, x) \<notin> (spec_objectEdges hm)\<^sup>+)"
    using "3.IH"(1) [OF cl r'] by blast
  from "3.IH"(2) [OF r refl b1 cl loop "3.prems"(3)]
  have rest: "\<forall>c \<in> set cs. spec_isObject hm c \<longrightarrow>
                (\<forall>x. (c, x) \<in> (spec_objectEdges hm)\<^sup>* \<longrightarrow>
                     (hasKids hm x \<longrightarrow> x \<notin> insert n1 s1)
                     \<and> (x, x) \<notin> (spec_objectEdges hm)\<^sup>+)"
    by blast
  have rest': "\<forall>c \<in> set cs. spec_isObject hm c \<longrightarrow>
                (\<forall>x. (c, x) \<in> (spec_objectEdges hm)\<^sup>* \<longrightarrow>
                     (hasKids hm x \<longrightarrow> x \<notin> insert n1 seen)
                     \<and> (x, x) \<notin> (spec_objectEdges hm)\<^sup>+)"
  proof (intro ballI impI allI)
    fix c' x
    assume "c' \<in> set cs" "spec_isObject hm c'" "(c', x) \<in> (spec_objectEdges hm)\<^sup>*"
    with rest have "(hasKids hm x \<longrightarrow> x \<notin> insert n1 s1) \<and> (x, x) \<notin> (spec_objectEdges hm)\<^sup>+"
      by blast
    with grow show "(hasKids hm x \<longrightarrow> x \<notin> insert n1 seen) \<and> (x, x) \<notin> (spec_objectEdges hm)\<^sup>+"
      by blast
  qed
  from unseen first rest' show ?case by auto
qed

lemma hasCycleWith_finds_cycles:
  assumes cl: "closedStore hm" and nd: "map_of hm n = Some nd" and c: "c \<in> set (Node_Children nd)"
    and pb: "spec_pathBack hm c n \<or> spec_leadsToCycle hm c"
  shows "\<exists>s. hasCycleWith hm n c {} = Inr (True, s)"
proof -
  from cl nd c have creg: "map_of hm c \<noteq> None" by (auto simp: closedStore_def)
  from hasCycleWith_total(1) [OF cl _ creg, of n "{}"] nd
  obtain r where "hasCycleWith hm n c {} = Inr r" by auto
  then obtain b s where r: "hasCycleWith hm n c {} = Inr (b, s)" by (cases r) simp
  have b
  proof (rule ccontr)
    assume "\<not> b"
    with r have f: "hasCycleWith hm n c {} = Inr (False, s)" by simp
    from pb show False
    proof
      assume "spec_pathBack hm c n"
      then have obj: "spec_isObject hm c" and path: "(c, n) \<in> (spec_objectEdges hm)\<^sup>*"
        by (simp_all add: spec_pathBack_def)
      have kids: "hasKids hm n" using nd c by (auto simp: hasKids_def)
      from hasCycleWith_False_acyclic(1) [OF cl f obj path] kids show False by simp
    next
      assume "spec_leadsToCycle hm c"
      then obtain x where obj: "spec_isObject hm c" and path: "(c, x) \<in> (spec_objectEdges hm)\<^sup>*"
        and cyc: "(x, x) \<in> (spec_objectEdges hm)\<^sup>+"
        by (auto simp: spec_leadsToCycle_def)
      from hasCycleWith_False_acyclic(1) [OF cl f obj path] cyc show False by simp
    qed
  qed
  with r show ?thesis by auto
qed

lemma hasCycleWith_True_object:
  assumes "hasCycleWith hm n c {} = Inr (True, s)"
  shows "spec_isObject hm c"
  using assms
  by (auto simp: hasCycleWith.simps spec_isObject_def split: option.splits if_splits)

lemma buildGraph_cycleSchema: "buildGraph cycleSchema = Inr cycleLinked"
  by code_simp

lemma setFlags_hasCycle:
  assumes "\<forall>f0 \<in> set fs. \<not> hasCycle f0" and "f \<in> set (setFlags S fs)"
  shows "hasCycle f = (FieldMeta_Type f \<in> S)"
  using assms by (auto simp: setFlags_def split: if_splits)

lemma buildGraph_char:
  assumes "buildGraph ts = Inr g" and "map_of (hashMap g) n = Some nd"
  obtains n0 nd0 where "collectTypes ts NewNodes = Inr n0" and "graphInv n0"
    and "sortOrder g = sortOrder n0"
    and "map_of (hashMap n0) n = Some nd0" and "freshNode nd0" and "Node_Name nd0 = n"
    and "nd = markedNode (linkChildren (hashMap n0)) n (linkNode (hashMap n0) nd0)"
    and "sameSkel (linkChildren (hashMap n0)) (hashMap g)"
    and "closedStore (hashMap g)"
proof -
  from assms(1) obtain n0 where c: "collectTypes ts NewNodes = Inr n0" and l: "Link n0 = Inr g"
    by (cases "collectTypes ts NewNodes") (simp_all add: buildGraph_def)
  have inv: "graphInv n0" by (rule graphInv_collectTypes [OF c graphInv_NewNodes])
  from Link_char [OF inv] obtain hm' where
    l': "Link n0 = Inr (n0\<lparr>hashMap := hm'\<rparr>)"
    and m: "\<forall>k. map_of hm' k =
          map_option (\<lambda>nd. markedNode (linkChildren (hashMap n0)) k (linkNode (hashMap n0) nd))
            (map_of (hashMap n0) k)"
    and ss: "sameSkel (linkChildren (hashMap n0)) hm'"
    by blast
  from l l' have g: "g = n0\<lparr>hashMap := hm'\<rparr>" by simp
  from assms(2) g m obtain nd0 where nd0: "map_of (hashMap n0) n = Some nd0"
    and nd: "nd = markedNode (linkChildren (hashMap n0)) n (linkNode (hashMap n0) nd0)"
    by (cases "map_of (hashMap n0) n") auto
  from inv nd0 have fr: "freshNode nd0" and nm: "Node_Name nd0 = n" by (auto simp: graphInv_def)
  have cl: "closedStore (hashMap g)"
    using sameSkel_closed [OF ss closedStore_linkChildren [OF inv]] g by simp
  from that [OF c inv _ nd0 fr nm nd _ cl] g ss show ?thesis by simp
qed

text \<open>
  C1, amended: after \<^verbatim>\<open>Link\<close>, a field of a node \<open>n\<close> whose mapped type names a
  direct child is flagged whenever there is a path from that child back to \<open>n\<close>
  through nodes of kind \<^verbatim>\<open>OBJECT\<close> or \<^verbatim>\<open>INPUT_OBJECT\<close> (so every field of a node on
  a cycle that points at a member of the cycle is flagged), and also whenever
  some cycle of that restricted graph can be reached from the child. A flagged
  field always points at a direct child of kind \<^verbatim>\<open>OBJECT\<close> or \<^verbatim>\<open>INPUT_OBJECT\<close>.
\<close>

theorem Link_flags_cycle_fields:
  assumes "buildGraph ts = Inr g" and "map_of (hashMap g) n = Some nd" and "f \<in> set (Node_Fields nd)"
  shows "(FieldMeta_Type f \<in> set (Node_Children nd) \<and> spec_pathBack (hashMap g) (FieldMeta_Type f) n
            \<longrightarrow> hasCycle f)
         \<and> (FieldMeta_Type f \<in> set (Node_Children nd) \<and> spec_leadsToCycle (hashMap g) (FieldMeta_Type f)
              \<longrightarrow> hasCycle f)
         \<and> (hasCycle f \<longrightarrow>
              FieldMeta_Type f \<in> set (Node_Children nd) \<and> spec_isObject (hashMap g) (FieldMeta_Type f))"
proof -
  from assms(1,2) obtain n0 nd0 where
    "collectTypes ts NewNodes = Inr n0" and "graphInv n0"
    and "sortOrder g = sortOrder n0"
    and "map_of (hashMap n0) n = Some nd0"
    and fr: "freshNode nd0" and "Node_Name nd0 = n"
    and nd: "nd = markedNode (linkChildren (hashMap n0)) n (linkNode (hashMap n0) nd0)"
    and ss: "sameSkel (linkChildren (hashMap n0)) (hashMap g)"
    and cl: "closedStore (hashMap g)"
    by (rule buildGraph_char)
  let ?L = "linkChildren (hashMap n0)"
  let ?S = "cyclicChildren ?L n (Node_Children nd)"
  have fields: "Node_Fields nd = setFlags ?S (Node_Fields nd0)"
    by (simp add: nd markedNode_def linkNode_def)
  have unfl: "\<forall>f0 \<in> set (Node_Fields nd0). \<not> hasCycle f0" using fr by (simp add: freshNode_def)
  from assms(3) fields have "f \<in> set (setFlags ?S (Node_Fields nd0))" by simp
  from setFlags_hasCycle [OF unfl this]
  have "hasCycle f = (FieldMeta_Type f \<in> cyclicChildren (hashMap g) n (Node_Children nd))"
    by (simp add: cyclicChildren_sameSkel [OF ss])
  then have exact: "hasCycle f =
      (FieldMeta_Type f \<in> set (Node_Children nd)
       \<and> (\<exists>s. hasCycleWith (hashMap g) n (FieldMeta_Type f) {} = Inr (True, s)))"
    by (simp add: cyclicChildren_def)
  have pb: "FieldMeta_Type f \<in> set (Node_Children nd) \<and> spec_pathBack (hashMap g) (FieldMeta_Type f) n
                \<longrightarrow> hasCycle f"
    using hasCycleWith_finds_cycles [OF cl assms(2)] exact by blast
  have lc: "FieldMeta_Type f \<in> set (Node_Children nd) \<and> spec_leadsToCycle (hashMap g) (FieldMeta_Type f)
                \<longrightarrow> hasCycle f"
    using hasCycleWith_finds_cycles [OF cl assms(2)] exact by blast
  have obj: "hasCycle f \<longrightarrow>
               FieldMeta_Type f \<in> set (Node_Children nd) \<and> spec_isObject (hashMap g) (FieldMeta_Type f)"
    using hasCycleWith_True_object exact by blast
  from pb lc obj show ?thesis by blast
qed

lemma linkFields_same_type:
  assumes "\<forall>f \<in> set fs. FieldMeta_Type f = t" and "map_of hm t \<noteq> None"
  shows "linkFields hm fs seen ch = (if fs = [] \<or> t \<in> seen then ch else ch @ [t])"
  using assms(1)
proof (induction fs arbitrary: seen ch)
  case Nil
  show ?case by simp
next
  case (Cons f fs)
  from Cons.prems have t: "FieldMeta_Type f = t" and rest: "\<forall>f \<in> set fs. FieldMeta_Type f = t"
    by simp_all
  from Cons.IH [OF rest] assms(2) t show ?case by auto
qed

text \<open>
  C10: after \<^verbatim>\<open>Link\<close>, a node of kind \<^verbatim>\<open>ENUM\<close> with at least one field (one per
  enum value) is filed under its own name and has itself as its only child;
  the traversal along that self-edge answers false at once, and no field of
  the node is flagged.
\<close>

theorem Link_enum_self_child:
  assumes "buildGraph ts = Inr g" and "map_of (hashMap g) n = Some nd"
    and "Node_Kind nd = ENUM" and "Node_Fields nd \<noteq> []"
  shows "Node_Name nd = n \<and> Node_Children nd = [n]
         \<and> hasCycleWith (hashMap g) n n {} = Inr (False, {})
         \<and> (\<forall>f \<in> set (Node_Fields nd). \<not> hasCycle f)"
proof -
  from assms(1,2) obtain n0 nd0 where
    "collectTypes ts NewNodes = Inr n0" and "graphInv n0"
    and "sortOrder g = sortOrder n0"
    and nd0: "map_of (hashMap n0) n = Some nd0"
    and fr: "freshNode nd0" and nm: "Node_Name nd0 = n"
    and nd: "nd = markedNode (linkChildren (hashMap n0)) n (linkNode (hashMap n0) nd0)"
    and ss: "sameSkel (linkChildren (hashMap n0)) (hashMap g)"
    and "closedStore (hashMap g)"
    by (rule buildGraph_char)
  let ?L = "linkChildren (hashMap n0)"
  have kind: "Node_Kind nd0 = ENUM" using assms(3) by (simp add: nd markedNode_def linkNode_def)
  have ne: "Node_Fields nd0 \<noteq> []"
    using assms(4) by (auto simp: nd markedNode_def linkNode_def setFlags_def)
  from fr kind nm have ty: "\<forall>f \<in> set (Node_Fields nd0). FieldMeta_Type f = n"
    by (simp add: freshNode_def)
  have reg: "map_of (hashMap n0) n \<noteq> None" using nd0 by simp
  have ch0: "Node_Children nd0 = []" using fr by (simp add: freshNode_def)
  have kids: "Node_Children nd = [n]"
    using linkFields_same_type [OF ty reg, of "{}" "[]"] ne ch0
    by (simp add: nd markedNode_def linkNode_def)
  have name: "Node_Name nd = n" by (simp add: nd markedNode_def linkNode_def nm)
  have "ENUM \<noteq> OBJECT" "ENUM \<noteq> INPUT_OBJECT" by (simp_all add: kind_defs)
  with assms(2) assms(3) name
  have verdict: "hasCycleWith (hashMap g) n n {} = Inr (False, {})"
    by (simp add: hasCycleWith.simps)
  have "cyclicChildren ?L n (Node_Children nd) = {}"
    using verdict kids by (auto simp: cyclicChildren_def hasCycleWith_sameSkel(1) [OF ss])
  then have "Node_Fields nd = Node_Fields nd0"
    using kids by (simp add: nd markedNode_def linkNode_def)
  with fr have "\<forall>f \<in> set (Node_Fields nd). \<not> hasCycle f" by (simp add: freshNode_def)
  with name kids verdict show ?thesis by simp
qed

lemma collectTypes_enumSchema: "collectTypes enumSchema NewNodes = Inr enumCollected"
  by code_simp

lemma Link_enumCollected: "Link enumCollected = Inr enumLinked"
  by code_simp

lemma buildGraph_enumSchema: "buildGraph enumSchema = Inr enumLinked"
  by (simp add: buildGraph_def collectTypes_enumSchema Link_enumCollected)

lemma no_edge_into_Product: "(a, ''Product'') \<notin> spec_objectEdges (hashMap cycleLinked)"
  by (auto simp: spec_objectEdges_def cycleLinked_def split: if_splits)

lemma no_pathBack_to_Product:
  "\<not> spec_pathBack (hashMap cycleLinked) ''ProductVariant'' ''Product''"
proof
  assume "spec_pathBack (hashMap cycleLinked) ''ProductVariant'' ''Product''"
  then have "(''ProductVariant'', ''Product'') \<in> (spec_objectEdges (hashMap cycleLinked))\<^sup>*"
    by (simp add: spec_pathBack_def)
  then show False
  proof (cases rule: rtranclE)
    case base
    then show False by simp
  next
    case (step y)
    with no_edge_into_Product show False by blast
  qed
qed

text \<open>
  C1, as the claim states it, fails in the "only if" direction, on the schema
  of the repository's own test "schema with cycle": the field \<^verbatim>\<open>variant\<close> of
  \<^verbatim>\<open>Product\<close> is flagged after \<^verbatim>\<open>Link\<close> (the test expects the pointer form for
  it), yet no path leads from \<^verbatim>\<open>ProductVariant\<close> back to \<^verbatim>\<open>Product\<close>.
\<close>

theorem Link_flags_without_pathBack_counterexample:
  "buildGraph cycleSchema = Inr cycleLinked
   \<and> map_of (hashMap cycleLinked) ''Product''
       = Some \<lparr>Node_Name = ''Product'', Node_Kind = OBJECT,
               Node_Fields = [fm ''name'' ''string'' False False,
                              fm ''variant'' ''ProductVariant'' True False],
               Node_Children = [''ProductVariant'']\<rparr>
   \<and> FieldMeta_Type (fm ''variant'' ''ProductVariant'' True False) = ''ProductVariant''
   \<and> hasCycle (fm ''variant'' ''ProductVariant'' True False)
   \<and> \<not> spec_pathBack (hashMap cycleLinked) ''ProductVariant'' ''Product''"
  using buildGraph_cycleSchema no_pathBack_to_Product
  by (simp add: cycleLinked_def fm_def)

lemma pathBack_InventoryItem:
  "spec_pathBack (hashMap cycleLinked) ''ProductVariant'' ''InventoryItem''"
proof -
  have "(''ProductVariant'', ''InventoryItem'') \<in> spec_objectEdges (hashMap cycleLinked)"
    by (simp add: spec_objectEdges_def spec_isObject_def cycleLinked_def)
  moreover have "spec_isObject (hashMap cycleLinked) ''ProductVariant''"
    by (simp add: spec_isObject_def cycleLinked_def)
  ultimately show ?thesis by (simp add: spec_pathBack_def)
qed

lemma leadsToCycle_ProductVariant:
  "spec_leadsToCycle (hashMap cycleLinked) ''ProductVariant''"
proof -
  have e1: "(''ProductVariant'', ''InventoryItem'') \<in> spec_objectEdges (hashMap cycleLinked)"
    by (simp add: spec_objectEdges_def spec_isObject_def cycleLinked_def)
  have e2: "(''InventoryItem'', ''ProductVariant'') \<in> spec_objectEdges (hashMap cycleLinked)"
    by (simp add: spec_objectEdges_def spec_isObject_def cycleLinked_def)
  from e1 e2 have "(''ProductVariant'', ''ProductVariant'') \<in> (spec_objectEdges (hashMap cycleLinked))\<^sup>+"
    by (rule trancl_into_trancl [OF r_into_trancl])
  moreover have "spec_isObject (hashMap cycleLinked) ''ProductVariant''"
    by (simp add: spec_isObject_def cycleLinked_def)
  ultimately show ?thesis unfolding spec_leadsToCycle_def by blast
qed

theorem Link_flags_cycle_fields_witness:
  "buildGraph cycleSchema = Inr cycleLinked
   \<and> spec_pathBack (hashMap cycleLinked) ''ProductVariant'' ''InventoryItem''
   \<and> spec_leadsToCycle (hashMap cycleLinked) ''ProductVariant''
   \<and> hasCycle (fm ''variant'' ''ProductVariant'' True False)
   \<and> spec_isObject (hashMap cycleLinked) ''ProductVariant''"
proof -
  let ?f = "fm ''variant'' ''ProductVariant'' True False"
  let ?item = "\<lparr>Node_Name = ''InventoryItem'', Node_Kind = OBJECT,
                 Node_Fields = [fm ''harmonizedSystemCode'' ''string'' False False, ?f],
                 Node_Children = [''ProductVariant'']\<rparr>"
  let ?product = "\<lparr>Node_Name = ''Product'', Node_Kind = OBJECT,
                    Node_Fields = [fm ''name'' ''string'' False False, ?f],
                    Node_Children = [''ProductVariant'']\<rparr>"
  have item: "map_of (hashMap cycleLinked) ''InventoryItem'' = Some ?item"
    by (simp add: cycleLinked_def)
  have product: "map_of (hashMap cycleLinked) ''Product'' = Some ?product"
    by (simp add: cycleLinked_def)
  have f1: "?f \<in> set (Node_Fields ?item)" and f2: "?f \<in> set (Node_Fields ?product)" by simp_all
  have ty: "FieldMeta_Type ?f = ''ProductVariant''" by (simp add: fm_def)
  have c1: "FieldMeta_Type ?f \<in> set (Node_Children ?item)"
    and c2: "FieldMeta_Type ?f \<in> set (Node_Children ?product)" by (simp_all add: ty)
  have pb: "spec_pathBack (hashMap cycleLinked) (FieldMeta_Type ?f) ''InventoryItem''"
    using pathBack_InventoryItem by (simp only: ty)
  have lc: "spec_leadsToCycle (hashMap cycleLinked) (FieldMeta_Type ?f)"
    using leadsToCycle_ProductVariant by (simp only: ty)
  note T1 = Link_flags_cycle_fields [OF buildGraph_cycleSchema item f1]
  note T2 = Link_flags_cycle_fields [OF buildGraph_cycleSchema product f2]
  have a: "hasCycle ?f"
    by (rule mp [OF conjunct1 [OF T1] conjI [OF c1 pb]])
  have b: "hasCycle ?f"
    by (rule mp [OF conjunct1 [OF conjunct2 [OF T2]] conjI [OF c2 lc]])
  have "spec_isObject (hashMap cycleLinked) (FieldMeta_Type ?f)"
    by (rule conjunct2 [OF mp [OF conjunct2 [OF conjunct2 [OF T2]] b]])
  then have c: "spec_isObject (hashMap cycleLinked) ''ProductVariant''" by (simp only: ty)
  from buildGraph_cycleSchema pathBack_InventoryItem leadsToCycle_ProductVariant a c
  show ?thesis by blast
qed

theorem Link_enum_self_child_witness:
  "buildGraph enumSchema = Inr enumLinked
   \<and> Node_Kind (snd (mkNode ''Status'' ENUM [])) = ENUM
   \<and> map_option Node_Children (map_of (hashMap enumLinked) ''Status'') = Some [''Status'']
   \<and> hasCycleWith (hashMap enumLinked) ''Status'' ''Status'' {} = Inr (False, {})
   \<and> map_option (map hasCycle \<circ> Node_Fields) (map_of (hashMap enumLinked) ''Status'')
       = Some [False, False]"
proof -
  let ?nd = "\<lparr>Node_Name = ''Status'', Node_Kind = ENUM,
               Node_Fields = [fm ''ACTIVE'' ''Status'' False False,
                              fm ''INACTIVE'' ''Status'' False False],
               Node_Children = [''Status'']\<rparr>"
  have nd: "map_of (hashMap enumLinked) ''Status'' = Some ?nd"
    by (simp add: enumLinked_def)
  have k: "Node_Kind ?nd = ENUM" and ne: "Node_Fields ?nd \<noteq> []" by simp_all
  from Link_enum_self_child [OF buildGraph_enumSchema nd k ne]
  have "hasCycleWith (hashMap enumLinked) ''Status'' ''Status'' {} = Inr (False, {})"
    by blast
  with buildGraph_enumSchema nd show ?thesis by (simp add: mkNode_def fm_def)
qed

theorem Link_changes_only_hasCycle_witness:
  "collectTypes enumSchema NewNodes = Inr enumCollected
   \<and> Link enumCollected = Inr enumLinked
   \<and> sortOrder enumLinked = sortOrder enumCollected
   \<and> map fst (hashMap enumLinked) = map fst (hashMap enumCollected)
   \<and> map_option frameOf (map_of (hashMap enumLinked) ''Query'')
       = map_option frameOf (map_of (hashMap enumCollected) ''Query'')"
proof -
  from Link_changes_only_hasCycle [OF collectTypes_enumSchema] Link_enumCollected
  have "sortOrder enumLinked = sortOrder enumCollected"
    and "map fst (hashMap enumLinked) = map fst (hashMap enumCollected)"
    and "\<forall>k. map_option frameOf (map_of (hashMap enumLinked) k)
            = map_option frameOf (map_of (hashMap enumCollected) k)"
    by auto
  with collectTypes_enumSchema Link_enumCollected show ?thesis by blast
qed

subsection \<open>Emission\<close>

lemma Collect_noop: "map_of (hashMap n) (Node_Name nd) \<noteq> None \<Longrightarrow> Collect_node nd n = n"
  by (auto simp: Collect_node_def)

lemma Collect_new:
  "map_of (hashMap n) (Node_Name nd) = None \<Longrightarrow>
     sortOrder (Collect_node nd n) = sortOrder n @ [Node_Name nd]
     \<and> map_of (hashMap (Collect_node nd n)) = (map_of (hashMap n))(Node_Name nd \<mapsto> nd)"
  by (simp add: Collect_node_def update_conv')

lemma fold_Collect_order:
  "set (sortOrder n) = dom (map_of (hashMap n)) \<Longrightarrow>
     sortOrder (fold Collect_node nds n) = spec_firstSeen (sortOrder n) (map Node_Name nds)
     \<and> (\<forall>k. map_of (hashMap (fold Collect_node nds n)) k =
            (case map_of (hashMap n) k of
               Some x \<Rightarrow> Some x
             | None \<Rightarrow> find (\<lambda>nd. Node_Name nd = k) nds))"
proof (induction nds arbitrary: n)
  case Nil
  show ?case by (simp split: option.split)
next
  case (Cons nd nds)
  show ?case
  proof (cases "map_of (hashMap n) (Node_Name nd) = None")
    case False
    then have same: "Collect_node nd n = n" by (rule Collect_noop)
    from False Cons.prems have mem: "Node_Name nd \<in> set (sortOrder n)" by auto
    from Cons.IH [OF Cons.prems] same mem False show ?thesis
      by (auto split: option.split)
  next
    case True
    note new = Collect_new [OF True]
    from True Cons.prems have nmem: "Node_Name nd \<notin> set (sortOrder n)" by auto
    have inv: "set (sortOrder (Collect_node nd n)) = dom (map_of (hashMap (Collect_node nd n)))"
      using new Cons.prems by auto
    from Cons.IH [OF inv] new nmem True show ?thesis
      by (auto split: option.split)
  qed
qed

lemma ToGoTypes_loop_sound:
  "ToGoTypes_loop up lo hm vs out = Inr r \<Longrightarrow>
     \<exists>ds. r = out @ ds \<and> list_all2 (spec_emitted up lo hm) vs ds"
proof (induction vs arbitrary: out)
  case Nil
  then show ?case by simp
next
  case (Cons v vs)
  from Cons.prems obtain nd where nd: "map_of hm v = Some nd"
    by (cases "map_of hm v") simp_all
  from Cons.prems nd obtain d where d: "emitNode up lo nd = Inr d"
    by (cases "emitNode up lo nd") simp_all
  from Cons.prems nd d have "ToGoTypes_loop up lo hm vs (out @ [d]) = Inr r" by simp
  from Cons.IH [OF this] obtain ds where ds: "r = (out @ [d]) @ ds"
    and all: "list_all2 (spec_emitted up lo hm) vs ds" by blast
  have "spec_emitted up lo hm v d" using nd d by (auto simp: spec_emitted_def)
  with all have "list_all2 (spec_emitted up lo hm) (v # vs) (d # ds)" by simp
  moreover from ds have "r = out @ (d # ds)" by simp
  ultimately show ?case by blast
qed

lemma ToGoTypes_loop_complete:
  "list_all2 (spec_emitted up lo hm) vs ds \<Longrightarrow> ToGoTypes_loop up lo hm vs out = Inr (out @ ds)"
proof (induction vs ds arbitrary: out rule: list_all2_induct)
  case Nil
  show ?case by simp
next
  case (Cons v vs d ds)
  from Cons.hyps(1) obtain nd where "map_of hm v = Some nd" "emitNode up lo nd = Inr d"
    by (auto simp: spec_emitted_def)
  with Cons.IH [of "out @ [d]"] show ?case by simp
qed

lemma ToGoTypes_char:
  "(ToGoTypes up lo n = Inr out) =
     (\<exists>ds. list_all2 (spec_emitted up lo (hashMap n)) (sortOrder n) ds \<and> out = Join ds [CHR 0x0A])"
proof
  assume a: "ToGoTypes up lo n = Inr out"
  then obtain r where r: "ToGoTypes_loop up lo (hashMap n) (sortOrder n) [] = Inr r"
    and out: "out = Join r [CHR 0x0A]"
    by (cases "ToGoTypes_loop up lo (hashMap n) (sortOrder n) []") (auto simp: ToGoTypes_def)
  from ToGoTypes_loop_sound [OF r] out
  show "\<exists>ds. list_all2 (spec_emitted up lo (hashMap n)) (sortOrder n) ds \<and> out = Join ds [CHR 0x0A]"
    by auto
next
  assume "\<exists>ds. list_all2 (spec_emitted up lo (hashMap n)) (sortOrder n) ds \<and> out = Join ds [CHR 0x0A]"
  then obtain ds where ds: "list_all2 (spec_emitted up lo (hashMap n)) (sortOrder n) ds"
    and out: "out = Join ds [CHR 0x0A]" by blast
  from ToGoTypes_loop_complete [OF ds, of "[]"] out
  show "ToGoTypes up lo n = Inr out" by (simp add: ToGoTypes_def)
qed

lemma ToGoTypes_loop_cong:
  "map_of hm = map_of hm' \<Longrightarrow> ToGoTypes_loop up lo hm vs out = ToGoTypes_loop up lo hm' vs out"
  by (induction vs arbitrary: out) (simp_all split: option.split sum.split)

lemma Link_sortOrder: "Link n = Inr n' \<Longrightarrow> sortOrder n' = sortOrder n"
  by (auto simp: Link_def split: sum.splits)

text \<open>
  C5: for every sequence of \<^verbatim>\<open>Collect\<close> calls on a new graph, \<^verbatim>\<open>sortOrder\<close> is the
  sequence of node names in first-seen order and every name is bound to the
  first node collected under it; collecting a node whose name is registered
  changes nothing; \<^verbatim>\<open>Link\<close> keeps \<^verbatim>\<open>sortOrder\<close>. \<^verbatim>\<open>ToGoTypes\<close> returns a text
  exactly when every name of \<^verbatim>\<open>sortOrder\<close> is bound to a node that the emitter
  accepts, and the text is then the declarations of these nodes, in the order
  of \<^verbatim>\<open>sortOrder\<close>, joined by a newline. The result depends on the content of
  \<^verbatim>\<open>hashMap\<close> only, never on the order of its entries.
\<close>

theorem ToGoTypes_first_Collect_order:
  "sortOrder (fold Collect_node nds NewNodes) = spec_firstSeen [] (map Node_Name nds)
   \<and> (\<forall>k. map_of (hashMap (fold Collect_node nds NewNodes)) k = find (\<lambda>nd. Node_Name nd = k) nds)
   \<and> (map_of (hashMap n) (Node_Name nd) \<noteq> None \<longrightarrow> Collect_node nd n = n)
   \<and> (Link n = Inr n' \<longrightarrow> sortOrder n' = sortOrder n)
   \<and> ((ToGoTypes up lo n = Inr out) =
        (\<exists>ds. list_all2 (spec_emitted up lo (hashMap n)) (sortOrder n) ds \<and> out = Join ds [CHR 0x0A]))
   \<and> (map_of hm = map_of (hashMap n) \<longrightarrow> ToGoTypes up lo (n\<lparr>hashMap := hm\<rparr>) = ToGoTypes up lo n)"
proof -
  have inv: "set (sortOrder NewNodes) = dom (map_of (hashMap NewNodes))"
    by (simp add: NewNodes_def)
  from fold_Collect_order [OF inv, of nds]
  have a: "sortOrder (fold Collect_node nds NewNodes) = spec_firstSeen [] (map Node_Name nds)"
    and b: "\<forall>k. map_of (hashMap (fold Collect_node nds NewNodes)) k = find (\<lambda>nd. Node_Name nd = k) nds"
    by (simp_all add: NewNodes_def)
  have c: "map_of (hashMap n) (Node_Name nd) \<noteq> None \<longrightarrow> Collect_node nd n = n"
    using Collect_noop by blast
  have d: "Link n = Inr n' \<longrightarrow> sortOrder n' = sortOrder n"
    using Link_sortOrder by blast
  have e: "map_of hm = map_of (hashMap n) \<longrightarrow> ToGoTypes up lo (n\<lparr>hashMap := hm\<rparr>) = ToGoTypes up lo n"
    using ToGoTypes_loop_cong [of hm "hashMap n" up lo "sortOrder n" "[]"]
    by (simp add: ToGoTypes_def)
  from a b c d e ToGoTypes_char [of up lo n out] show ?thesis by blast
qed

lemma fieldTmpl_spec:
  "JSONTag f = FieldMeta_Name f \<Longrightarrow>
     fieldTmpl f ident (FieldMeta_Type f) (JSONTag f) = spec_fieldLine ident f"
  by (simp add: fieldTmpl_def spec_fieldLine_def tmplValue_def tmplNullable_def tmplCycle_def)

lemma toGoStruct_fields_spec:
  "list_all2 (\<lambda>f ident. capitalize up lo (FieldMeta_Name f) = Inr ident) fs idents \<Longrightarrow>
     \<forall>f \<in> set fs. JSONTag f = FieldMeta_Name f \<Longrightarrow>
     toGoStruct_fields up lo fs out
       = Inr (out @ concat (map (\<lambda>(f, ident). spec_fieldLine ident f) (zip fs idents)))"
proof (induction fs idents arbitrary: out rule: list_all2_induct)
  case Nil
  show ?case by simp
next
  case (Cons f fs ident idents)
  from Cons.prems have tag: "JSONTag f = FieldMeta_Name f"
    and rest: "\<forall>f \<in> set fs. JSONTag f = FieldMeta_Name f" by simp_all
  from Cons.IH [OF rest, of "out @ fieldTmpl f ident (FieldMeta_Type f) (JSONTag f)"]
       Cons.hyps(1) fieldTmpl_spec [OF tag, of ident]
  show ?case by simp
qed

lemma setFlags_tags:
  "\<forall>f \<in> set fs. JSONTag f = FieldMeta_Name f \<Longrightarrow>
     \<forall>f \<in> set (setFlags S fs). JSONTag f = FieldMeta_Name f"
  by (auto simp: setFlags_def)

text \<open>
  C6: for every node of kind \<^verbatim>\<open>OBJECT\<close>, \<^verbatim>\<open>INPUT_OBJECT\<close> or \<^verbatim>\<open>UNION\<close> of a built
  graph whose field names the identifier exporter accepts, the emitted
  declaration is the struct header, one line per field in order, and the
  closing brace, where the line of a field is the pointer form when the field
  has a cycle, else the pointer form with \<^verbatim>\<open>omitempty\<close> when it is nullable, else
  the value form, and the tag is the original field name in all three.
\<close>

theorem toGoStruct_representation:
  assumes "buildGraph ts = Inr g" and "map_of (hashMap g) n = Some nd"
    and "Node_Kind nd = OBJECT \<or> Node_Kind nd = INPUT_OBJECT \<or> Node_Kind nd = UNION"
    and "list_all2 (\<lambda>f ident. capitalize up lo (FieldMeta_Name f) = Inr ident) (Node_Fields nd) idents"
  shows "emitNode up lo nd = Inr (spec_structDecl nd idents)"
proof -
  from assms(1,2) obtain n0 nd0 where
    "collectTypes ts NewNodes = Inr n0" and "graphInv n0"
    and "sortOrder g = sortOrder n0"
    and "map_of (hashMap n0) n = Some nd0"
    and fr: "freshNode nd0" and "Node_Name nd0 = n"
    and nd: "nd = markedNode (linkChildren (hashMap n0)) n (linkNode (hashMap n0) nd0)"
    and "sameSkel (linkChildren (hashMap n0)) (hashMap g)"
    and "closedStore (hashMap g)"
    by (rule buildGraph_char)
  from fr have "\<forall>f \<in> set (Node_Fields nd0). JSONTag f = FieldMeta_Name f"
    by (simp add: freshNode_def)
  then have tags: "\<forall>f \<in> set (Node_Fields nd). JSONTag f = FieldMeta_Name f"
    using setFlags_tags by (simp add: nd markedNode_def linkNode_def)
  from toGoStruct_fields_spec [OF assms(4) tags]
  have "toGoStruct up lo nd = Inr (spec_structDecl nd idents)"
    by (simp add: toGoStruct_def spec_structDecl_def)
  with assms(3) show ?thesis by (auto simp: emitNode_def)
qed

lemma queryLinked_lookup: "map_of (hashMap enumLinked) ''Query'' = Some queryLinked"
  by (simp add: enumLinked_def queryLinked_def)

lemma capitalize_examples:
  "capitalize asciiToUpper asciiToLower ''status'' = Inr ''Status''"
  "capitalize asciiToUpper asciiToLower ''parent'' = Inr ''Parent''"
  "capitalize asciiToUpper asciiToLower ''label'' = Inr ''Label''"
  by code_simp+

theorem toGoStruct_representation_witness:
  "buildGraph enumSchema = Inr enumLinked
   \<and> map_of (hashMap enumLinked) ''Query'' = Some queryLinked
   \<and> Node_Kind queryLinked = OBJECT
   \<and> emitNode asciiToUpper asciiToLower queryLinked = Inr queryDecl"
proof -
  have k: "Node_Kind queryLinked = OBJECT \<or> Node_Kind queryLinked = INPUT_OBJECT
           \<or> Node_Kind queryLinked = UNION"
    by (simp add: queryLinked_def)
  have caps: "list_all2 (\<lambda>f ident. capitalize asciiToUpper asciiToLower (FieldMeta_Name f) = Inr ident)
                (Node_Fields queryLinked) [''Status'', ''Parent'', ''Label'']"
    by (simp add: queryLinked_def fm_def capitalize_examples)
  have "spec_structDecl queryLinked [''Status'', ''Parent'', ''Label''] = queryDecl"
    by (simp add: spec_structDecl_def spec_fieldLine_def queryLinked_def queryDecl_def fm_def)
  with toGoStruct_representation [OF buildGraph_enumSchema queryLinked_lookup k caps]
  have "emitNode asciiToUpper asciiToLower queryLinked = Inr queryDecl" by simp
  with buildGraph_enumSchema queryLinked_lookup show ?thesis by (simp add: queryLinked_def)
qed

theorem ToGoTypes_first_Collect_order_witness:
  "sortOrder (fold Collect_node enumNodes NewNodes) = [''Query'', ''Status'']
   \<and> map_of (hashMap (fold Collect_node enumNodes NewNodes)) ''Query'' = Some (hd enumNodes)
   \<and> Collect_node (last enumNodes) enumCollected = enumCollected
   \<and> ToGoTypes asciiToUpper asciiToLower enumLinked = Inr (Join [queryDecl, statusDecl] [CHR 0x0A])"
proof -
  note T = ToGoTypes_first_Collect_order
             [of enumNodes enumCollected "last enumNodes" enumLinked asciiToUpper asciiToLower
                 "Join [queryDecl, statusDecl] [CHR 0x0A]" "hashMap enumCollected"]
  have names: "spec_firstSeen [] (map Node_Name enumNodes) = [''Query'', ''Status'']"
    by (simp add: enumNodes_def)
  have first: "find (\<lambda>nd. Node_Name nd = ''Query'') enumNodes = Some (hd enumNodes)"
    by (simp add: enumNodes_def)
  from T have "sortOrder (fold Collect_node enumNodes NewNodes) = spec_firstSeen [] (map Node_Name enumNodes)"
    by blast
  with names have a: "sortOrder (fold Collect_node enumNodes NewNodes) = [''Query'', ''Status'']"
    by (simp only:)
  from T have "map_of (hashMap (fold Collect_node enumNodes NewNodes)) ''Query''
                 = find (\<lambda>nd. Node_Name nd = ''Query'') enumNodes"
    by blast
  with first have b: "map_of (hashMap (fold Collect_node enumNodes NewNodes)) ''Query'' = Some (hd enumNodes)"
    by (simp only:)
  have "map_of (hashMap enumCollected) (Node_Name (last enumNodes)) \<noteq> None"
    by (simp add: enumCollected_def enumNodes_def)
  with T have c: "Collect_node (last enumNodes) enumCollected = enumCollected" by blast
  have e1: "spec_emitted asciiToUpper asciiToLower (hashMap enumLinked) ''Query'' queryDecl"
    unfolding spec_emitted_def
    by (rule exI [of _ queryLinked]) (simp add: queryLinked_lookup, code_simp)
  have e2: "spec_emitted asciiToUpper asciiToLower (hashMap enumLinked) ''Status'' statusDecl"
    unfolding spec_emitted_def
    by (rule exI [of _ "snd (hashMap enumLinked ! 1)"]) (simp add: enumLinked_def, code_simp)
  have "list_all2 (spec_emitted asciiToUpper asciiToLower (hashMap enumLinked)) (sortOrder enumLinked)
          [queryDecl, statusDecl]"
    using e1 e2 by (simp add: enumLinked_def)
  with ToGoTypes_first_Collect_order
         [of enumNodes enumLinked "last enumNodes" enumLinked asciiToUpper asciiToLower
             "Join [queryDecl, statusDecl] [CHR 0x0A]" "hashMap enumLinked"]
  have d: "ToGoTypes asciiToUpper asciiToLower enumLinked
             = Inr (Join [queryDecl, statusDecl] [CHR 0x0A])"
    by blast
  from a b c d show ?thesis by blast
qed

text \<open>
  The map \<^verbatim>\<open>seen\<close> is keyed by the receiver and shared by the calls
  for all children of one node, so the call for a second child finds its own
  receiver in \<^verbatim>\<open>seen\<close>. On the acyclic schema above, the field \<^verbatim>\<open>b\<close> of \<^verbatim>\<open>A\<close> is
  flagged, because \<^verbatim>\<open>B\<close> has two children of kind \<^verbatim>\<open>OBJECT\<close>.
\<close>

lemma Link_flags_sibling_on_acyclic_schema:
  "buildGraph siblingSchema = Inr siblingLinked
   \<and> hasCycleWith (hashMap siblingLinked) ''A'' ''B'' {} = Inr (True, {''B'', ''A''})
   \<and> hasCycleWith (hashMap siblingLinked) ''B'' ''C'' {} = Inr (False, {''B''})"
  by code_simp

end
